theory Spec2Isabelle
  imports Complex_Main
begin

section \<open>Deferred events: \<open>utils/scheduling.py\<close>\<close>

text \<open>
  Python objects are compared by identity (\<open>ScheduledEvent\<close> defines no \<open>__eq__\<close>), so
  an event is an address into a heap of event objects. Time readings (\<open>get_time()\<close>,
  Python floats) are reals; every operation takes the reading of the clock as its first
  argument, one reading per call of \<open>update\<close>. The registry is modelled with exact
  sums; saving and restoring, where the rounding of float arithmetic shows, take the
  rounding as a parameter.
\<close>

datatype py_error = ValueError | IndexError | NameError | AttributeError

type_synonym event_id = nat

text \<open>\<open>repeat\<close> is an int, or \<open>math.inf\<close>.\<close>

datatype repeat_count = Finite int | Infinite

record ScheduledEvent =
  creator :: nat
  delay :: real
  function_name :: string
  repeat :: repeat_count
  delay_left :: "real option"

text \<open>\<open>ScheduledEvent.__init__\<close>: \<open>self.repeat = inf if repeat == -1 else repeat\<close>.\<close>

definition ScheduledEvent_init ::
  "nat \<Rightarrow> real \<Rightarrow> string \<Rightarrow> repeat_count \<Rightarrow> real option \<Rightarrow> ScheduledEvent" where
  "ScheduledEvent_init c d f r dl =
     \<lparr>creator = c, delay = d, function_name = f,
      repeat = (if r = Finite (- 1) then Infinite else r), delay_left = dl\<rparr>"

text \<open>Truth value of \<open>event.repeat\<close>, and \<open>event.repeat -= 1\<close> (\<open>inf - 1 == inf\<close>).\<close>

fun repeat_truthy :: "repeat_count \<Rightarrow> bool" where
  "repeat_truthy (Finite n) = (n \<noteq> 0)"
| "repeat_truthy Infinite = True"

fun repeat_decrement :: "repeat_count \<Rightarrow> repeat_count" where
  "repeat_decrement (Finite n) = Finite (n - 1)"
| "repeat_decrement Infinite = Infinite"

text \<open>\<open>event.delay_left or event.delay\<close>: \<open>None\<close> and \<open>0.0\<close> are both falsy.\<close>

definition delay_left_or_delay :: "ScheduledEvent \<Rightarrow> real" where
  "delay_left_or_delay ev =
     (case delay_left ev of
        None \<Rightarrow> delay ev
      | Some dl \<Rightarrow> if dl \<noteq> 0 then dl else delay ev)"

text \<open>
  The scheduler with the heap of event objects it refers to, and the trace of
  \<open>execute()\<close> calls in the order they were made. The scheduled callables are opaque:
  \<open>execute\<close> catches every exception they raise, and they are taken not to reach back
  into the scheduler.
\<close>

record EventsScheduler =
  events :: "event_id \<Rightarrow> ScheduledEvent"
  scheduled_events :: "event_id list"
  execution_times :: "real list"
  executed :: "event_id list"

text \<open>\<open>list.index(x)\<close> (\<open>None\<close> stands for the \<open>ValueError\<close>) and \<open>list.pop(i)\<close>.\<close>

fun list_index :: "'a list \<Rightarrow> 'a \<Rightarrow> nat option" where
  "list_index [] x = None"
| "list_index (y # ys) x = (if y = x then Some 0 else map_option Suc (list_index ys x))"

definition list_pop :: "nat \<Rightarrow> 'a list \<Rightarrow> 'a list" where
  "list_pop i xs = take i xs @ drop (Suc i) xs"

definition schedule :: "real \<Rightarrow> event_id \<Rightarrow> EventsScheduler \<Rightarrow> EventsScheduler" where
  "schedule now event s =
     (let d = delay_left_or_delay (events s event)
      in s\<lparr>scheduled_events := scheduled_events s @ [event],
           execution_times := execution_times s @ [now + d]\<rparr>)"

text \<open>
  \<open>unschedule\<close>: the \<open>ValueError\<close> of \<open>index\<close> is caught; an \<open>IndexError\<close> of
  \<open>execution_times.pop(index)\<close> would not be.
\<close>

definition unschedule :: "event_id \<Rightarrow> EventsScheduler \<Rightarrow> py_error + EventsScheduler" where
  "unschedule event s =
     (case list_index (scheduled_events s) event of
        None \<Rightarrow> Inr s
      | Some i \<Rightarrow>
          if i < length (execution_times s)
          then Inr (s\<lparr>scheduled_events := list_pop i (scheduled_events s),
                      execution_times := list_pop i (execution_times s)\<rparr>)
          else Inl IndexError)"

definition execute :: "event_id \<Rightarrow> EventsScheduler \<Rightarrow> EventsScheduler" where
  "execute event s = s\<lparr>executed := executed s @ [event]\<rparr>"

definition decrement_repeat :: "event_id \<Rightarrow> EventsScheduler \<Rightarrow> EventsScheduler" where
  "decrement_repeat event s =
     s\<lparr>events := (events s)
          (event := (events s event)\<lparr>repeat := repeat_decrement (repeat (events s event))\<rparr>)\<rparr>"

text \<open>
  \<open>update\<close>: \<open>for i, event in enumerate(self.scheduled_events)\<close> walks the list by a
  running index while the body mutates that same list; the list iterator stops as soon
  as the index reaches the current length.
\<close>

function update_loop :: "real \<Rightarrow> nat \<Rightarrow> EventsScheduler \<Rightarrow> py_error + EventsScheduler" where
  "update_loop time i s =
     (if i < length (scheduled_events s) then
        (if i < length (execution_times s) then
           (if time \<ge> execution_times s ! i then
              (case unschedule (scheduled_events s ! i) (execute (scheduled_events s ! i) s) of
                 Inl err \<Rightarrow> Inl err
               | Inr s' \<Rightarrow>
                   update_loop time (Suc i)
                     (if repeat_truthy (repeat (events s' (scheduled_events s ! i)))
                      then schedule time (scheduled_events s ! i)
                             (decrement_repeat (scheduled_events s ! i) s')
                      else s'))
            else update_loop time (Suc i) s)
         else Inl IndexError)
      else Inr s)"
  by pat_completeness auto

lemma list_index_Some_less: "list_index xs x = Some i \<Longrightarrow> i < length xs"
  by (induction xs arbitrary: i) (auto split: if_splits)

lemma list_index_None_iff: "list_index xs x = None \<longleftrightarrow> x \<notin> set xs"
  by (induction xs) auto

lemma length_list_pop: "i < length xs \<Longrightarrow> Suc (length (list_pop i xs)) = length xs"
  by (auto simp: list_pop_def)

lemma unschedule_member_length:
  assumes "unschedule event s = Inr s'" and "event \<in> set (scheduled_events s)"
  shows "Suc (length (scheduled_events s')) = length (scheduled_events s)"
proof -
  from assms(2) obtain i where i: "list_index (scheduled_events s) event = Some i"
    using list_index_None_iff [of "scheduled_events s" event] by (cases "list_index (scheduled_events s) event") auto
  with assms(1) have "scheduled_events s' = list_pop i (scheduled_events s)"
    by (auto simp: unschedule_def split: if_splits)
  with i show ?thesis
    by (simp add: length_list_pop list_index_Some_less)
qed

termination update_loop
proof (relation "measure (\<lambda>(time, i, s). length (scheduled_events s) - i)")
  show "wf (measure (\<lambda>(time, i, s). length (scheduled_events s) - i))"
    by simp
next
  fix time :: real and i :: nat and s s' :: EventsScheduler
  assume i: "i < length (scheduled_events s)"
    and u: "unschedule (scheduled_events s ! i) (execute (scheduled_events s ! i) s) = Inr s'"
  have "scheduled_events s ! i \<in> set (scheduled_events (execute (scheduled_events s ! i) s))"
    using i by (simp add: execute_def)
  from unschedule_member_length [OF u this]
  have "Suc (length (scheduled_events s')) = length (scheduled_events s)"
    by (simp add: execute_def)
  then show "((time, Suc i,
       if repeat_truthy (repeat (events s' (scheduled_events s ! i)))
       then schedule time (scheduled_events s ! i) (decrement_repeat (scheduled_events s ! i) s')
       else s'), time, i, s) \<in> measure (\<lambda>(time, i, s). length (scheduled_events s) - i)"
    using i by (auto simp: schedule_def decrement_repeat_def Let_def)
next
  fix time :: real and i :: nat and s :: EventsScheduler
  assume "i < length (scheduled_events s)"
  then show "((time, Suc i, s), time, i, s) \<in> measure (\<lambda>(time, i, s). length (scheduled_events s) - i)"
    by auto
qed

declare update_loop.simps [simp del]

definition update :: "real \<Rightarrow> EventsScheduler \<Rightarrow> py_error + EventsScheduler" where
  "update time s = update_loop time 0 s"

text \<open>A run of the game loop: one \<open>update\<close> per tick, at the given clock readings.\<close>

fun run :: "real list \<Rightarrow> EventsScheduler \<Rightarrow> py_error + EventsScheduler" where
  "run [] s = Inr s"
| "run (t # ts) s = (case update t s of Inl err \<Rightarrow> Inl err | Inr s' \<Rightarrow> run ts s')"

text \<open>
  What saving and restoring take from the Python runtime: the rounding of float
  arithmetic (\<open>fl\<close> turns the exact result of one addition or subtraction into the
  float that the operation returns), whether a callable is a bound method
  (\<open>hasattr(function, '__self__')\<close>), and what \<open>eval\<close> makes of an expression: an
  error, or a callable, given by its name.
\<close>

record py_runtime =
  fl :: "real \<Rightarrow> real"
  has_self :: "string \<Rightarrow> bool"
  py_eval :: "string \<Rightarrow> py_error + string"

text \<open>\<open>schedule\<close> with the rounding of its sum made explicit.\<close>

definition schedule_rounded ::
  "py_runtime \<Rightarrow> real \<Rightarrow> event_id \<Rightarrow> EventsScheduler \<Rightarrow> EventsScheduler" where
  "schedule_rounded rt now event s =
     (let d = delay_left_or_delay (events s event)
      in s\<lparr>scheduled_events := scheduled_events s @ [event],
           execution_times := execution_times s @ [fl rt (now + d)]\<rparr>)"

definition time_left_to_event_execution ::
  "py_runtime \<Rightarrow> real \<Rightarrow> event_id \<Rightarrow> EventsScheduler \<Rightarrow> py_error + real" where
  "time_left_to_event_execution rt now event s =
     (case list_index (scheduled_events s) event of
        None \<Rightarrow> Inl ValueError
      | Some i \<Rightarrow>
          if i < length (execution_times s) then Inr (fl rt (execution_times s ! i - now))
          else Inl IndexError)"

subsection \<open>\<open>EventsCreator\<close>\<close>

text \<open>
  An owner keeps its own list \<open>self.scheduled_events\<close> beside the global scheduler
  (\<open>EventsScheduler.instance\<close>).
\<close>

record EventsCreator =
  creator_events :: "event_id list"
  scheduler_instance :: EventsScheduler

definition add_event_to_scheduled_list :: "event_id \<Rightarrow> EventsCreator \<Rightarrow> EventsCreator" where
  "add_event_to_scheduled_list event c = c\<lparr>creator_events := creator_events c @ [event]\<rparr>"

text \<open>\<open>list.remove(x)\<close> deletes the first \<open>x\<close> and raises \<open>ValueError\<close> when there is none.\<close>

definition remove_event_from_scheduled_list ::
  "event_id \<Rightarrow> EventsCreator \<Rightarrow> py_error + EventsCreator" where
  "remove_event_from_scheduled_list event c =
     (case list_index (creator_events c) event of
        None \<Rightarrow> Inl ValueError
      | Some i \<Rightarrow> Inr (c\<lparr>creator_events := list_pop i (creator_events c)\<rparr>))"

definition schedule_event :: "real \<Rightarrow> event_id \<Rightarrow> EventsCreator \<Rightarrow> EventsCreator" where
  "schedule_event now event c =
     (let c' = add_event_to_scheduled_list event c
      in c'\<lparr>scheduler_instance := schedule now event (scheduler_instance c')\<rparr>)"

definition unschedule_event :: "event_id \<Rightarrow> EventsCreator \<Rightarrow> py_error + EventsCreator" where
  "unschedule_event event c =
     (case remove_event_from_scheduled_list event c of
        Inl err \<Rightarrow> Inl err
      | Inr c' \<Rightarrow>
          (case unschedule event (scheduler_instance c') of
             Inl err \<Rightarrow> Inl err
           | Inr s' \<Rightarrow> Inr (c'\<lparr>scheduler_instance := s'\<rparr>)))"

text \<open>
  The saved form of an event (\<open>args\<close> and \<open>kwargs\<close> are carried along unchanged and
  are left out), and the two directions of the conversion. Restoring re-binds the
  function by \<open>eval\<close> of \<open>self.\<close> and its name, or of the bare name, and raises what
  \<open>eval\<close> raises; both list comprehensions stop at the first error.
\<close>

record shelve_data =
  sd_delay_left :: real
  sd_delay :: real
  sd_function_name :: string
  sd_self :: bool
  sd_repeat :: repeat_count

fun shelve_events ::
  "py_runtime \<Rightarrow> real \<Rightarrow> EventsScheduler \<Rightarrow> event_id list \<Rightarrow> py_error + shelve_data list" where
  "shelve_events rt now s [] = Inr []"
| "shelve_events rt now s (event # rest) =
     (case time_left_to_event_execution rt now event s of
        Inl err \<Rightarrow> Inl err
      | Inr left \<Rightarrow>
          (case shelve_events rt now s rest of
             Inl err \<Rightarrow> Inl err
           | Inr ds \<Rightarrow>
               Inr (\<lparr>sd_delay_left = left, sd_delay = delay (events s event),
                      sd_function_name = function_name (events s event),
                      sd_self = has_self rt (function_name (events s event)),
                      sd_repeat = repeat (events s event)\<rparr> # ds)))"

definition scheduled_events_to_shelve_data ::
  "py_runtime \<Rightarrow> real \<Rightarrow> EventsCreator \<Rightarrow> py_error + shelve_data list" where
  "scheduled_events_to_shelve_data rt now c =
     shelve_events rt now (scheduler_instance c) (creator_events c)"

fun shelve_data_to_scheduled_events ::
  "py_runtime \<Rightarrow> nat \<Rightarrow> shelve_data list \<Rightarrow> py_error + ScheduledEvent list" where
  "shelve_data_to_scheduled_events rt self [] = Inr []"
| "shelve_data_to_scheduled_events rt self (d # rest) =
     (case py_eval rt (if sd_self d then ''self.'' @ sd_function_name d
                       else sd_function_name d) of
        Inl err \<Rightarrow> Inl err
      | Inr f \<Rightarrow>
          (case shelve_data_to_scheduled_events rt self rest of
             Inl err \<Rightarrow> Inl err
           | Inr evs \<Rightarrow>
               Inr (ScheduledEvent_init self (sd_delay d) f (sd_repeat d)
                      (Some (sd_delay_left d)) # evs)))"

section \<open>Units on the map: \<open>units/units.py\<close>\<close>

text \<open>
  A \<open>MapNode\<close> is identified by its grid coordinates, a unit by its id. The map and
  the players live in modules that are not among the sources, so what the unit code asks
  of them is a parameter: the conversions between positions, grids and nodes, the
  \<open>walkable\<close> and \<open>walkable_adjacent\<close> properties of a node (which may depend on who
  occupies which node), hostility between units, and the pick of \<open>random.choice\<close>.
\<close>

type_synonym unit_id = nat
type_synonym grid = "int \<times> int"
type_synonym node = grid
type_synonym position = "real \<times> real"

record map_env =
  position_to_node :: "position \<Rightarrow> node"
  position_to_map_grid :: "position \<Rightarrow> grid"
  node_position :: "node \<Rightarrow> position"
  walkable :: "(node \<Rightarrow> unit_id option) \<Rightarrow> node \<Rightarrow> bool"
  walkable_adjacent :: "(node \<Rightarrow> unit_id option) \<Rightarrow> node \<Rightarrow> node list"
  is_enemy :: "unit_id \<Rightarrow> unit_id \<Rightarrow> bool"
  random_choice :: "node list \<Rightarrow> node"

text \<open>The pathfinding fields of a \<open>Unit\<close>; \<open>path\<close> and \<open>awaited_path\<close> are deques.\<close>

record Unit =
  position :: position
  current_node :: node
  reserved_node :: "node option"
  path :: "position list"
  path_wait_counter :: real
  awaited_path :: "position list option"

text \<open>
  The world: the units, the \<open>unit\<close> attribute of every node, and the requests that
  are pending in the pathfinder, oldest first, as (unit, start, destination).
\<close>

record world =
  units :: "unit_id \<Rightarrow> Unit"
  node_unit :: "node \<Rightarrow> unit_id option"
  path_requests :: "(unit_id \<times> grid \<times> grid) list"

definition upd_unit :: "unit_id \<Rightarrow> (Unit \<Rightarrow> Unit) \<Rightarrow> world \<Rightarrow> world" where
  "upd_unit u f w = w\<lparr>units := (units w)(u := f (units w u))\<rparr>"

text \<open>
  Modelled from the spec: the \<open>Pathfinder\<close> service of \<open>map/map.py\<close>, which is not
  among the sources. \<open>request_path(agent, start, destination)\<close> files a request,
  \<open>cancel_unit_path_requests(agent)\<close> drops the agent's pending ones, and a unit is
  \<open>in\<close> the pathfinder while it has a pending request.
\<close>

definition request_path :: "unit_id \<Rightarrow> grid \<Rightarrow> grid \<Rightarrow> world \<Rightarrow> world" where
  "request_path u start destination w =
     w\<lparr>path_requests := path_requests w @ [(u, start, destination)]\<rparr>"

definition cancel_unit_path_requests :: "unit_id \<Rightarrow> world \<Rightarrow> world" where
  "cancel_unit_path_requests u w =
     w\<lparr>path_requests := filter (\<lambda>r. fst r \<noteq> u) (path_requests w)\<rparr>"

definition in_pathfinder :: "unit_id \<Rightarrow> world \<Rightarrow> bool" where
  "in_pathfinder u w = (\<exists>r \<in> set (path_requests w). fst r = u)"

subsection \<open>Blocking of map nodes\<close>

definition unblock_map_node :: "node \<Rightarrow> world \<Rightarrow> world" where
  "unblock_map_node n w = w\<lparr>node_unit := (node_unit w)(n := None)\<rparr>"

definition block_map_node :: "unit_id \<Rightarrow> node \<Rightarrow> world \<Rightarrow> world" where
  "block_map_node u n w = w\<lparr>node_unit := (node_unit w)(n := Some u)\<rparr>"

definition swap_blocked_nodes :: "unit_id \<Rightarrow> node option \<Rightarrow> node \<Rightarrow> world \<Rightarrow> world" where
  "swap_blocked_nodes u unblocked blocked w =
     block_map_node u blocked
       (case unblocked of None \<Rightarrow> w | Some n \<Rightarrow> unblock_map_node n w)"

definition update_current_blocked_node :: "unit_id \<Rightarrow> node \<Rightarrow> world \<Rightarrow> world" where
  "update_current_blocked_node u new_current_node w =
     upd_unit u (\<lambda>x. x\<lparr>current_node := new_current_node\<rparr>)
       (swap_blocked_nodes u (Some (current_node (units w u))) new_current_node w)"

definition update_reserved_node :: "map_env \<Rightarrow> unit_id \<Rightarrow> world \<Rightarrow> py_error + world" where
  "update_reserved_node env u w =
     (case path (units w u) of
        [] \<Rightarrow> Inl IndexError
      | p # _ \<Rightarrow>
          (let new_reserved_node = position_to_node env p
           in Inr (upd_unit u (\<lambda>x. x\<lparr>reserved_node := Some new_reserved_node\<rparr>)
                    (swap_blocked_nodes u (reserved_node (units w u)) new_reserved_node w))))"

subsection \<open>Collision avoidance\<close>

definition move_to :: "map_env \<Rightarrow> unit_id \<Rightarrow> grid \<Rightarrow> world \<Rightarrow> world" where
  "move_to env u destination w =
     (let w' = cancel_unit_path_requests u w;
          start = position_to_map_grid env (position (units w' u))
      in request_path u start destination w')"

text \<open>\<open>self.stop()\<close> zeroes the sprite's velocity, which is not part of the state here.\<close>

definition wait_for_free_path :: "real \<Rightarrow> unit_id \<Rightarrow> position list \<Rightarrow> world \<Rightarrow> world" where
  "wait_for_free_path now u p w =
     upd_unit u (\<lambda>x. x\<lparr>path_wait_counter := now + 1, awaited_path := Some p, path := []\<rparr>) w"

definition has_destination :: "unit_id \<Rightarrow> world \<Rightarrow> bool" where
  "has_destination u w =
     (path (units w u) \<noteq> []
      \<or> (case awaited_path (units w u) of None \<Rightarrow> False | Some p \<Rightarrow> p \<noteq> [])
      \<or> in_pathfinder u w)"

definition find_alternative_path :: "map_env \<Rightarrow> unit_id \<Rightarrow> world \<Rightarrow> world option" where
  "find_alternative_path env u w =
     (if length (path (units w u)) > 1 then
        (let destination = position_to_node env (path (units w u) ! 1);
             adjacent = walkable_adjacent env (node_unit w) (current_node (units w u))
         in case filter (\<lambda>n. n \<in> set (walkable_adjacent env (node_unit w) destination)) adjacent of
              [] \<Rightarrow> None
            | n # _ \<Rightarrow>
                Some (upd_unit u (\<lambda>x. x\<lparr>path := (path x)[0 := node_position env n]\<rparr>) w))
      else None)"

definition find_free_tile_to_unblock_way :: "map_env \<Rightarrow> unit_id \<Rightarrow> world \<Rightarrow> bool \<times> world" where
  "find_free_tile_to_unblock_way env u w =
     (let adjacent = walkable_adjacent env (node_unit w) (current_node (units w u))
      in if adjacent \<noteq> [] then (True, move_to env u (random_choice env adjacent) w)
         else (False, w))"

definition ask_for_pass :: "map_env \<Rightarrow> real \<Rightarrow> unit_id \<Rightarrow> unit_id \<Rightarrow> world \<Rightarrow> py_error + world" where
  "ask_for_pass env now u blocker w =
     (case find_free_tile_to_unblock_way env blocker w of
        (found, w') \<Rightarrow>
          if found then Inr (wait_for_free_path now u (path (units w' u)) w')
          else if path (units w' u) = [] then Inl IndexError
          else Inr (move_to env u (position_to_map_grid env (last (path (units w' u)))) w'))"

definition find_best_way_to_avoid_collision ::
  "map_env \<Rightarrow> real \<Rightarrow> unit_id \<Rightarrow> unit_id \<Rightarrow> world \<Rightarrow> py_error + world" where
  "find_best_way_to_avoid_collision env now u blocker w =
     (if has_destination blocker w \<or> is_enemy env u blocker
      then Inr (wait_for_free_path now u (path (units w u)) w)
      else case find_alternative_path env u w of
             Some w' \<Rightarrow> Inr w'
           | None \<Rightarrow> ask_for_pass env now u blocker w)"

definition scan_next_nodes_for_collisions ::
  "map_env \<Rightarrow> real \<Rightarrow> unit_id \<Rightarrow> world \<Rightarrow> py_error + world" where
  "scan_next_nodes_for_collisions env now u w =
     (case path (units w u) of
        [] \<Rightarrow> Inr w
      | p # _ \<Rightarrow>
          (case node_unit w (position_to_node env p) of
             None \<Rightarrow> Inr w
           | Some blocker \<Rightarrow>
               if blocker = u then Inr w
               else find_best_way_to_avoid_collision env now u blocker w))"

definition update_blocked_map_nodes ::
  "map_env \<Rightarrow> real \<Rightarrow> unit_id \<Rightarrow> node \<Rightarrow> world \<Rightarrow> py_error + world" where
  "update_blocked_map_nodes env now u new_current_node w =
     (case scan_next_nodes_for_collisions env now u w of
        Inl err \<Rightarrow> Inl err
      | Inr w1 \<Rightarrow>
          (let w2 = update_current_blocked_node u new_current_node w1
           in if length (path (units w2 u)) > 1 then update_reserved_node env u w2
              else Inr w2))"

subsection \<open>Waiting and following\<close>

definition restart_path :: "map_env \<Rightarrow> unit_id \<Rightarrow> position list \<Rightarrow> world \<Rightarrow> py_error + world" where
  "restart_path env u p w =
     (if length p > 20
      then Inr (upd_unit u (\<lambda>x. x\<lparr>awaited_path := None\<rparr>)
                 (upd_unit u (\<lambda>x. x\<lparr>path := p\<rparr>) w))
      else if p = [] then Inl IndexError
      else Inr (upd_unit u (\<lambda>x. x\<lparr>awaited_path := None\<rparr>)
                 (move_to env u (position_to_map_grid env (last p)) w)))"

definition countdown_waiting ::
  "map_env \<Rightarrow> real \<Rightarrow> unit_id \<Rightarrow> position list \<Rightarrow> world \<Rightarrow> py_error + world" where
  "countdown_waiting env now u p w =
     (if now \<ge> path_wait_counter (units w u) then
        (case p of
           [] \<Rightarrow> Inl IndexError
         | p0 # _ \<Rightarrow>
             if walkable env (node_unit w) (position_to_node env p0) \<or> length p < 20
             then restart_path env u p w
             else Inr (upd_unit u
                         (\<lambda>x. x\<lparr>path_wait_counter := path_wait_counter x + 1\<rparr>) w))
      else Inr w)"

text \<open>
  \<open>follow_path\<close> compares angles and distances computed in floating point from the
  sprite's position, facing and speed. That geometry is not modelled: which of its three
  branches is taken is an input of the tick. Only reaching the waypoint changes the
  path (\<open>move_to_next_waypoint\<close> is \<open>self.path.popleft()\<close>).
\<close>

datatype follow_branch = Rotate | Reach_waypoint | Move_on

definition follow_path :: "follow_branch \<Rightarrow> unit_id \<Rightarrow> world \<Rightarrow> py_error + world" where
  "follow_path branch u w =
     (if path (units w u) = [] then Inl IndexError
      else case branch of
             Rotate \<Rightarrow> Inr w
           | Reach_waypoint \<Rightarrow> Inr (upd_unit u (\<lambda>x. x\<lparr>path := tl (path x)\<rparr>) w)
           | Move_on \<Rightarrow> Inr w)"

definition update_pathfinding ::
  "map_env \<Rightarrow> real \<Rightarrow> follow_branch \<Rightarrow> unit_id \<Rightarrow> world \<Rightarrow> py_error + world" where
  "update_pathfinding env now branch u w =
     (case awaited_path (units w u) of
        Some p \<Rightarrow> countdown_waiting env now u p w
      | None \<Rightarrow> if path (units w u) \<noteq> [] then follow_path branch u w else Inr w)"

text \<open>
  \<open>Unit.on_update\<close>: the sprite has moved to \<open>new_position\<close>; the observed area,
  the rendering layer and the sector bookkeeping are left out.
\<close>

definition on_update ::
  "map_env \<Rightarrow> real \<Rightarrow> position \<Rightarrow> follow_branch \<Rightarrow> unit_id \<Rightarrow> world \<Rightarrow> py_error + world" where
  "on_update env now new_position branch u w =
     (let w0 = upd_unit u (\<lambda>x. x\<lparr>position := new_position\<rparr>) w;
          new_current_node = position_to_node env new_position
      in case update_blocked_map_nodes env now u new_current_node w0 of
           Inl err \<Rightarrow> Inl err
         | Inr w1 \<Rightarrow> update_pathfinding env now branch u w1)"

section \<open>Notions used in the statements\<close>

text \<open>
  The registry is a pair of parallel lists; \<open>entries\<close> reads it as the list of events
  with their fire times, and it is \<open>consistent\<close> when the two lists have the same
  length. \<open>fired e s\<close> counts the executions of \<open>e\<close> so far.
\<close>

definition entries :: "EventsScheduler \<Rightarrow> (event_id \<times> real) list" where
  "entries s = zip (scheduled_events s) (execution_times s)"

definition consistent :: "EventsScheduler \<Rightarrow> bool" where
  "consistent s \<longleftrightarrow> length (scheduled_events s) = length (execution_times s)"

definition fired :: "event_id \<Rightarrow> EventsScheduler \<Rightarrow> nat" where
  "fired e s = count_list (executed s) e"

text \<open>
  A rounding is \<open>accurate\<close> to \<open>u\<close> when its relative error is at most \<open>u\<close>, as that
  of a float addition or subtraction is for the unit roundoff.
\<close>

definition accurate :: "real \<Rightarrow> (real \<Rightarrow> real) \<Rightarrow> bool" where
  "accurate u f \<longleftrightarrow> (\<forall>x. \<bar>f x - x\<bar> \<le> u * \<bar>x\<bar>)"

text \<open>
  An event \<open>is_due\<close> at a tick when the registry holds an entry of it whose fire time
  has come; \<open>due_ticks\<close> counts the ticks of a run that find the event due.
\<close>

definition is_due :: "event_id \<Rightarrow> real \<Rightarrow> EventsScheduler \<Rightarrow> bool" where
  "is_due e t s \<longleftrightarrow> (\<exists>(y, x) \<in> set (entries s). y = e \<and> x \<le> t)"

fun due_ticks :: "event_id \<Rightarrow> real list \<Rightarrow> EventsScheduler \<Rightarrow> nat" where
  "due_ticks e [] s = 0"
| "due_ticks e (t # ts) s =
     (if is_due e t s then 1 else 0) +
     (case update t s of Inl err \<Rightarrow> 0 | Inr s' \<Rightarrow> due_ticks e ts s')"

text \<open>
  For the proofs: the rest of the loop body after \<open>unschedule\<close>; the executions an
  event has had and still has to come, which add up to a constant \<open>K\<close>; and a bound on
  the number of due ticks the event still needs, in a registry of at most \<open>L\<close> entries.
\<close>

definition refire :: "real \<Rightarrow> event_id \<Rightarrow> EventsScheduler \<Rightarrow> EventsScheduler" where
  "refire t x s1 =
     (if repeat_truthy (repeat (events s1 x)) then schedule t x (decrement_repeat x s1) else s1)"

definition budget_inv :: "event_id \<Rightarrow> nat \<Rightarrow> EventsScheduler \<Rightarrow> bool" where
  "budget_inv e K s \<longleftrightarrow>
     consistent s \<and> count_list (scheduled_events s) e \<le> 1 \<and>
     (if count_list (scheduled_events s) e = 0 then fired e s = K
      else (case repeat (events s e) of
              Finite n \<Rightarrow> 0 \<le> n \<and> int (fired e s) + n + 1 = int K
            | Infinite \<Rightarrow> False))"

definition potential :: "event_id \<Rightarrow> nat \<Rightarrow> EventsScheduler \<Rightarrow> nat" where
  "potential e L s =
     (case list_index (scheduled_events s) e of
        None \<Rightarrow> 0
      | Some p \<Rightarrow>
          (case repeat (events s e) of
             Finite n \<Rightarrow> nat n * L + p + 1
           | Infinite \<Rightarrow> 0))"

text \<open>\<open>EventsScheduler.__init__\<close> and \<open>EventsCreator.__init__\<close>, over a given heap of events.\<close>

definition EventsScheduler_init :: "(event_id \<Rightarrow> ScheduledEvent) \<Rightarrow> EventsScheduler" where
  "EventsScheduler_init heap =
     \<lparr>events = heap, scheduled_events = [], execution_times = [], executed = []\<rparr>"

definition EventsCreator_init :: "(event_id \<Rightarrow> ScheduledEvent) \<Rightarrow> EventsCreator" where
  "EventsCreator_init heap =
     \<lparr>creator_events = [], scheduler_instance = EventsScheduler_init heap\<rparr>"

subsection \<open>Concrete schedulers\<close>

text \<open>Two one-shot events with a delay of one second, both scheduled at time 0.\<close>

definition two_due :: EventsScheduler where
  "two_due =
     schedule 0 2 (schedule 0 1
       (EventsScheduler_init (\<lambda>_. ScheduledEvent_init 0 1 ''scheduling_test'' (Finite 0) None)))"

text \<open>
  An event with a delay of 10 seconds and one repeat left, restored from a save with
  7 seconds remaining and scheduled at time 0.
\<close>

definition restored_repeating :: EventsScheduler where
  "restored_repeating =
     schedule 0 1
       (EventsScheduler_init
          (\<lambda>_. ScheduledEvent_init 0 10 ''scheduling_test'' (Finite 1) (Some 7)))"

text \<open>Events that carry a remaining delay of exactly 0, and of -3 seconds.\<close>

definition zero_left :: EventsScheduler where
  "zero_left =
     EventsScheduler_init (\<lambda>_. ScheduledEvent_init 0 10 ''scheduling_test'' (Finite 0) (Some 0))"

definition overdue_left :: EventsScheduler where
  "overdue_left =
     EventsScheduler_init (\<lambda>_. ScheduledEvent_init 0 10 ''scheduling_test'' (Finite 0) (Some (- 3)))"

text \<open>An event with a delay of one second and two repeats, scheduled at time 0.\<close>

definition thrice :: EventsScheduler where
  "thrice =
     schedule 0 1
       (EventsScheduler_init (\<lambda>_. ScheduledEvent_init 0 1 ''scheduling_test'' (Finite 2) None))"

text \<open>An owner that scheduled one event with a delay of 10 seconds at time 0.\<close>

definition owner_of_one :: EventsCreator where
  "owner_of_one =
     schedule_event 0 1
       (EventsCreator_init (\<lambda>_. ScheduledEvent_init 0 10 ''scheduling_test'' (Finite 0) None))"

text \<open>
  Two runtimes in which the owner has the method \<open>scheduling_test\<close> and nothing else
  can be evaluated. In the first no result needs rounding, as is the case for sums and
  differences of small whole numbers of seconds; in the second every result is off by
  the largest relative error that a double allows.
\<close>

definition exact_runtime :: py_runtime where
  "exact_runtime =
     \<lparr>fl = (\<lambda>x. x), has_self = (\<lambda>_. True),
      py_eval = (\<lambda>expr. if expr = ''self.scheduling_test'' then Inr ''scheduling_test''
                        else Inl NameError)\<rparr>"

definition inexact_runtime :: py_runtime where
  "inexact_runtime = exact_runtime\<lparr>fl := (\<lambda>x. x + x / 2 ^ 53)\<rparr>"

text \<open>
  The event of \<open>owner_of_one\<close> as saved at time 10 and at time 3, and the event
  re-created from the former.
\<close>

definition saved_when_due :: shelve_data where
  "saved_when_due =
     \<lparr>sd_delay_left = 0, sd_delay = 10, sd_function_name = ''scheduling_test'',
      sd_self = True, sd_repeat = Finite 0\<rparr>"

definition saved_after_3 :: shelve_data where
  "saved_after_3 = saved_when_due\<lparr>sd_delay_left := 7\<rparr>"

definition restored_when_due :: ScheduledEvent where
  "restored_when_due = ScheduledEvent_init 0 10 ''scheduling_test'' (Finite 0) (Some 0)"

subsection \<open>Concrete worlds\<close>

text \<open>
  A map of unit tiles without neighbours to step aside to; a node is walkable when no
  unit stands on it.
\<close>

definition tiles :: map_env where
  "tiles = \<lparr>position_to_node = (\<lambda>(x, y). (\<lfloor>x\<rfloor>, \<lfloor>y\<rfloor>)),
            position_to_map_grid = (\<lambda>(x, y). (\<lfloor>x\<rfloor>, \<lfloor>y\<rfloor>)),
            node_position = (\<lambda>(i, j). (real_of_int i, real_of_int j)),
            walkable = (\<lambda>occ n. occ n = None),
            walkable_adjacent = (\<lambda>occ n. []),
            is_enemy = (\<lambda>a b. False),
            random_choice = (\<lambda>ns. hd ns)\<rparr>"

definition idle_unit :: "position \<Rightarrow> Unit" where
  "idle_unit p =
     \<lparr>position = p, current_node = position_to_node tiles p, reserved_node = None,
      path = [], path_wait_counter = 0, awaited_path = None\<rparr>"

text \<open>
  Unit 1 stands on node (0, 0) and has just been given the path (1, 0), (2, 0). In
  \<open>walker_arrived\<close> it has come within reach of the first waypoint and dropped it, in
  \<open>walker_reserving\<close> it is still on its way there, and in \<open>walker_moved_on\<close> it has
  entered the node of the first waypoint, one tick after \<open>walker_arrived\<close>.
\<close>

definition walker :: world where
  "walker =
     \<lparr>units = (\<lambda>_. idle_unit (0, 0))(1 := (idle_unit (0, 0))\<lparr>path := [(1, 0), (2, 0)]\<rparr>),
      node_unit = (\<lambda>_. None)((0, 0) := Some 1),
      path_requests = []\<rparr>"

definition walker_arrived :: world where
  "walker_arrived =
     walker\<lparr>units := (units walker)
               (1 := \<lparr>position = (9 / 10, 0), current_node = (0, 0),
                      reserved_node = Some (1, 0), path = [(2, 0)],
                      path_wait_counter = 0, awaited_path = None\<rparr>),
            node_unit := (node_unit walker)((1, 0) := Some 1)\<rparr>"

definition walker_reserving :: world where
  "walker_reserving =
     walker\<lparr>units := (units walker)
               (1 := \<lparr>position = (1 / 2, 0), current_node = (0, 0),
                      reserved_node = Some (1, 0), path = [(1, 0), (2, 0)],
                      path_wait_counter = 0, awaited_path = None\<rparr>),
            node_unit := (node_unit walker)((1, 0) := Some 1)\<rparr>"

definition walker_moved_on :: world where
  "walker_moved_on =
     walker\<lparr>units := (units walker)
               (1 := \<lparr>position = (1, 0), current_node = (1, 0),
                      reserved_node = Some (1, 0), path = [(2, 0)],
                      path_wait_counter = 0, awaited_path = None\<rparr>),
            node_unit := (\<lambda>_. None)((1, 0) := Some 1)\<rparr>"

text \<open>The invariant as the specification words it, for one unit.\<close>

definition reservation_matches_queue :: "unit_id \<Rightarrow> world \<Rightarrow> bool" where
  "reservation_matches_queue u w \<longleftrightarrow>
     (reserved_node (units w u) \<noteq> None \<longleftrightarrow> length (path (units w u)) > 1)"

text \<open>
  Unit 1 waits with a shelved path, its deadline at time 5: a path of two waypoints
  (\<open>waiter\<close>, and \<open>waiter_rerouted\<close> one tick later), and a path of 21 waypoints whose
  first node is free (\<open>long_waiter\<close>) or held by unit 2 (\<open>blocked_waiter\<close>).
\<close>

definition waiter :: world where
  "waiter =
     \<lparr>units = (\<lambda>_. idle_unit (0, 0))
                (1 := (idle_unit (0, 0))\<lparr>path_wait_counter := 5,
                                           awaited_path := Some [(1, 0), (2, 0)]\<rparr>),
      node_unit = (\<lambda>_. None)((0, 0) := Some 1),
      path_requests = []\<rparr>"

definition waiter_rerouted :: world where
  "waiter_rerouted =
     waiter\<lparr>units := (units waiter)(1 := (idle_unit (0, 0))\<lparr>path_wait_counter := 5\<rparr>),
            path_requests := [(1, (0, 0), (2, 0))]\<rparr>"

definition long_path :: "position list" where
  "long_path = (1, 0) # map (\<lambda>i. (real i, 0)) [2..<22]"

definition long_waiter :: world where
  "long_waiter =
     \<lparr>units = (\<lambda>_. idle_unit (0, 0))
                (1 := (idle_unit (0, 0))\<lparr>path_wait_counter := 5,
                                           awaited_path := Some long_path\<rparr>),
      node_unit = (\<lambda>_. None)((0, 0) := Some 1),
      path_requests = []\<rparr>"

definition blocked_waiter :: world where
  "blocked_waiter = long_waiter\<lparr>node_unit := (node_unit long_waiter)((1, 0) := Some 2)\<rparr>"

text \<open>The same unit with a shelved path of exactly 20 waypoints whose first node is free.\<close>

definition twenty_path :: "position list" where
  "twenty_path = (1, 0) # map (\<lambda>i. (real i, 0)) [2..<21]"

definition twenty_waiter :: world where
  "twenty_waiter =
     long_waiter\<lparr>units := (units long_waiter)
                    (1 := (idle_unit (0, 0))\<lparr>path_wait_counter := 5,
                                               awaited_path := Some twenty_path\<rparr>)\<rparr>"

text \<open>Unit 1 on node (0, 0) and unit 2 on node (1, 0).\<close>

definition contested :: world where
  "contested =
     \<lparr>units = (\<lambda>_. idle_unit (0, 0))(2 := idle_unit (1, 0)),
      node_unit = (\<lambda>_. None)((0, 0) := Some 1, (1, 0) := Some 2),
      path_requests = []\<rparr>"

section \<open>The scheduler: facts\<close>

lemmas sched_eval = update_def update_loop.simps unschedule_def execute_def list_pop_def
  schedule_def decrement_repeat_def delay_left_or_delay_def ScheduledEvent_init_def
  EventsScheduler_init_def Let_def

lemma list_index_nth: "list_index xs x = Some i \<Longrightarrow> xs ! i = x"
  by (induction xs arbitrary: i) (auto split: if_splits)

lemma list_index_member: "x \<in> set xs \<Longrightarrow> \<exists>i. list_index xs x = Some i"
  using list_index_None_iff [of xs x] by (cases "list_index xs x") auto

lemma length_list_pop_if:
  "length (list_pop i xs) = (if i < length xs then length xs - 1 else length xs)"
  by (auto simp: list_pop_def)

lemma zip_list_pop:
  "length xs = length ys \<Longrightarrow> zip (list_pop i xs) (list_pop i ys) = list_pop i (zip xs ys)"
  by (simp add: list_pop_def take_zip drop_zip zip_append)

lemma filter_list_pop:
  assumes "i < length zs" and "\<not> P (zs ! i)"
  shows "filter P (list_pop i zs) = filter P zs"
proof -
  have "filter P zs = filter P (take i zs @ zs ! i # drop (Suc i) zs)"
    using assms(1) by (simp add: id_take_nth_drop [symmetric])
  also have "\<dots> = filter P (list_pop i zs)"
    using assms(2) by (simp add: list_pop_def)
  finally show ?thesis by simp
qed

lemma unschedule_absent: "e \<notin> set (scheduled_events s) \<Longrightarrow> unschedule e s = Inr s"
  by (simp add: unschedule_def list_index_None_iff [THEN iffD2])

lemma unschedule_present:
  assumes "consistent s" and "list_index (scheduled_events s) e = Some i"
  shows "unschedule e s = Inr (s\<lparr>scheduled_events := list_pop i (scheduled_events s),
                                 execution_times := list_pop i (execution_times s)\<rparr>)"
  using assms list_index_Some_less [OF assms(2)] by (simp add: unschedule_def consistent_def)

lemma unschedule_consistent:
  assumes "consistent s"
  shows "\<exists>s'. unschedule e s = Inr s' \<and> consistent s' \<and> events s' = events s
            \<and> executed s' = executed s
            \<and> filter (\<lambda>x. fst x \<noteq> e) (entries s') = filter (\<lambda>x. fst x \<noteq> e) (entries s)"
proof (cases "list_index (scheduled_events s) e")
  case None
  then have "unschedule e s = Inr s" by (simp add: unschedule_def)
  with assms show ?thesis by simp
next
  case (Some i)
  have i: "i < length (scheduled_events s)" by (rule list_index_Some_less [OF Some])
  then have i': "i < length (entries s)" using assms by (simp add: entries_def consistent_def)
  have "fst (entries s ! i) = e"
    using i assms list_index_nth [OF Some] by (simp add: entries_def consistent_def)
  then have "filter (\<lambda>x. fst x \<noteq> e) (list_pop i (entries s)) = filter (\<lambda>x. fst x \<noteq> e) (entries s)"
    using i' by (intro filter_list_pop) auto
  then show ?thesis
    using unschedule_present [OF assms Some] assms i
    by (simp add: entries_def zip_list_pop consistent_def length_list_pop_if)
qed

text \<open>
  C1. Every event whose fire time has come is executed and removed in the same tick,
  also when several are due at once. The pass walks the registry by index while it
  removes from it, so the event that follows a fired one is skipped: of two events due
  in the same tick only the first is executed, and the second stays in the registry.
\<close>

theorem update_skips_event_after_fired_one:
  "update 1 two_due =
     Inr (two_due\<lparr>scheduled_events := [2], execution_times := [1], executed := [1]\<rparr>)"
  by (simp add: two_due_def sched_eval)

text \<open>
  C7. A repeating event that fires is re-inserted with a fire time computed from its
  full delay. The event object keeps the remaining delay it was restored with, so the
  re-insertion at time 7 is due at 7 + 7 = 14 and not at 7 + 10 = 17.
\<close>

theorem reschedule_uses_stale_delay_left:
  "update 7 restored_repeating =
     Inr (restored_repeating
            \<lparr>events := (events restored_repeating)
                (1 := ScheduledEvent_init 0 10 ''scheduling_test'' (Finite 0) (Some 7)),
             scheduled_events := [1], execution_times := [14], executed := [1]\<rparr>)"
  by (simp add: restored_repeating_def sched_eval)

text \<open>
  C10. \<open>schedule\<close> appends the event; when the event carries a remaining delay of
  exactly 0 its fire time is the present time plus the full delay, and when it carries
  any other remaining delay, positive or negative, the fire time is the present time
  plus that remaining delay.
\<close>

theorem schedule_delay_left_zero:
  "scheduled_events (schedule now e s) = scheduled_events s @ [e] \<and>
   (delay_left (events s e) = Some 0 \<longrightarrow>
      execution_times (schedule now e s) = execution_times s @ [now + delay (events s e)]) \<and>
   (\<forall>d. delay_left (events s e) = Some d \<longrightarrow> d \<noteq> 0 \<longrightarrow>
      execution_times (schedule now e s) = execution_times s @ [now + d])"
  by (simp add: schedule_def delay_left_or_delay_def)

theorem schedule_delay_left_zero_witness:
  "delay_left (events zero_left 1) = Some 0 \<and>
   execution_times (schedule 5 1 zero_left) = [15] \<and>
   delay_left (events overdue_left 1) = Some (- 3) \<and>
   execution_times (schedule 5 1 overdue_left) = [2]"
  using schedule_delay_left_zero [of 5 1 zero_left] schedule_delay_left_zero [of 5 1 overdue_left]
  by (simp add: zero_left_def overdue_left_def EventsScheduler_init_def ScheduledEvent_init_def)

text \<open>
  C9. \<open>unschedule\<close> of an event that is not in the registry returns the scheduler
  unchanged and does not raise. On a consistent registry \<open>unschedule\<close> never raises,
  a second call on the same event does not raise either, and after one call as after
  two the entries of all other events, with their fire times and in their order, are
  what they were; only entries of the very event passed are ever removed (one per call),
  whatever the contents of the other event objects.
\<close>

theorem unschedule_idempotent_by_identity:
  "(e \<notin> set (scheduled_events s) \<longrightarrow> unschedule e s = Inr s) \<and>
   (consistent s \<longrightarrow>
      (\<exists>s' s''. unschedule e s = Inr s' \<and> unschedule e s' = Inr s'' \<and>
         consistent s' \<and> consistent s'' \<and>
         filter (\<lambda>x. fst x \<noteq> e) (entries s') = filter (\<lambda>x. fst x \<noteq> e) (entries s) \<and>
         filter (\<lambda>x. fst x \<noteq> e) (entries s'') = filter (\<lambda>x. fst x \<noteq> e) (entries s) \<and>
         events s'' = events s \<and> events s' = events s \<and>
         (e \<in> set (scheduled_events s) \<longrightarrow>
            Suc (length (scheduled_events s')) = length (scheduled_events s))))"
proof (intro conjI impI)
  assume "e \<notin> set (scheduled_events s)"
  then show "unschedule e s = Inr s" by (rule unschedule_absent)
next
  assume c: "consistent s"
  from unschedule_consistent [OF c, of e] obtain s' where
    s': "unschedule e s = Inr s'" "consistent s'" "events s' = events s"
        "filter (\<lambda>x. fst x \<noteq> e) (entries s') = filter (\<lambda>x. fst x \<noteq> e) (entries s)"
    by blast
  from unschedule_consistent [OF s'(2), of e] obtain s'' where
    s'': "unschedule e s' = Inr s''" "consistent s''" "events s'' = events s'"
        "filter (\<lambda>x. fst x \<noteq> e) (entries s'') = filter (\<lambda>x. fst x \<noteq> e) (entries s')"
    by blast
  have len: "e \<in> set (scheduled_events s) \<longrightarrow>
      Suc (length (scheduled_events s')) = length (scheduled_events s)"
    using unschedule_member_length [OF s'(1)] by blast
  have f: "filter (\<lambda>x. fst x \<noteq> e) (entries s'') = filter (\<lambda>x. fst x \<noteq> e) (entries s)"
    using s''(4) s'(4) by (rule trans)
  have ev: "events s'' = events s"
    using s''(3) s'(3) by (rule trans)
  show "\<exists>s' s''. unschedule e s = Inr s' \<and> unschedule e s' = Inr s'' \<and>
         consistent s' \<and> consistent s'' \<and>
         filter (\<lambda>x. fst x \<noteq> e) (entries s') = filter (\<lambda>x. fst x \<noteq> e) (entries s) \<and>
         filter (\<lambda>x. fst x \<noteq> e) (entries s'') = filter (\<lambda>x. fst x \<noteq> e) (entries s) \<and>
         events s'' = events s \<and> events s' = events s \<and>
         (e \<in> set (scheduled_events s) \<longrightarrow>
            Suc (length (scheduled_events s')) = length (scheduled_events s))"
    using s'(1) s''(1) s'(2) s''(2) s'(4) f ev s'(3) len
    by (intro exI [of _ s'] exI [of _ s''] conjI)
qed

theorem unschedule_idempotent_by_identity_witness:
  "5 \<notin> set (scheduled_events two_due) \<and> unschedule 5 two_due = Inr two_due \<and>
   consistent two_due \<and> 1 \<in> set (scheduled_events two_due) \<and>
   (\<exists>s' s''. unschedule 1 two_due = Inr s' \<and> unschedule 1 s' = Inr s'' \<and>
      filter (\<lambda>x. fst x \<noteq> 1) (entries s'') = filter (\<lambda>x. fst x \<noteq> 1) (entries two_due) \<and>
      Suc (length (scheduled_events s')) = length (scheduled_events two_due))"
proof -
  have a: "5 \<notin> set (scheduled_events two_due)"
    by (simp add: two_due_def schedule_def EventsScheduler_init_def Let_def)
  have m: "1 \<in> set (scheduled_events two_due)"
    by (simp add: two_due_def schedule_def EventsScheduler_init_def Let_def)
  have c: "consistent two_due"
    by (simp add: consistent_def two_due_def schedule_def EventsScheduler_init_def Let_def)
  have "unschedule 5 two_due = Inr two_due"
    using unschedule_idempotent_by_identity [of 5 two_due] a by blast
  moreover have "\<exists>s' s''. unschedule 1 two_due = Inr s' \<and> unschedule 1 s' = Inr s'' \<and>
      filter (\<lambda>x. fst x \<noteq> 1) (entries s'') = filter (\<lambda>x. fst x \<noteq> 1) (entries two_due) \<and>
      Suc (length (scheduled_events s')) = length (scheduled_events two_due)"
    using unschedule_idempotent_by_identity [of 1 two_due] c m by blast
  ultimately show ?thesis using a m c by blast
qed

text \<open>
  C8. Cancelling through the owner removes the event from the owner's list and from
  the scheduler, and may be repeated without raising. The owner's \<open>list.remove\<close> is
  not guarded the way the scheduler's \<open>unschedule\<close> is: the first cancellation of a
  scheduled event succeeds, the second one raises \<open>ValueError\<close>.
\<close>

theorem unschedule_event_twice_raises:
  "unschedule_event 1 owner_of_one =
     Inr (EventsCreator_init (\<lambda>_. ScheduledEvent_init 0 10 ''scheduling_test'' (Finite 0) None)) \<and>
   unschedule_event 1
     (EventsCreator_init (\<lambda>_. ScheduledEvent_init 0 10 ''scheduling_test'' (Finite 0) None)) =
     Inl ValueError"
  by (simp add: owner_of_one_def unschedule_event_def remove_event_from_scheduled_list_def
      schedule_event_def add_event_to_scheduled_list_def EventsCreator_init_def sched_eval)

lemma shelve_events_nth:
  "shelve_events rt now s es = Inr ds \<Longrightarrow>
     length ds = length es \<and>
     (\<forall>k<length es.
        time_left_to_event_execution rt now (es ! k) s = Inr (sd_delay_left (ds ! k)))"
proof (induction es arbitrary: ds)
  case Nil
  then show ?case by simp
next
  case (Cons e es)
  from Cons.prems obtain left ds' d where
    l: "time_left_to_event_execution rt now e s = Inr left" and
    r: "shelve_events rt now s es = Inr ds'" and
    ds: "ds = d # ds'" "sd_delay_left d = left"
    by (auto split: sum.splits)
  from Cons.IH [OF r] l ds show ?case
    by (auto simp: nth_Cons split: nat.splits)
qed

lemma restored_events_nth:
  "shelve_data_to_scheduled_events rt self ds = Inr evs \<Longrightarrow>
     length evs = length ds \<and>
     (\<forall>k<length ds.
        delay_left (evs ! k) = Some (sd_delay_left (ds ! k)) \<and>
        delay (evs ! k) = sd_delay (ds ! k))"
proof (induction ds arbitrary: evs)
  case Nil
  then show ?case by simp
next
  case (Cons d ds)
  from Cons.prems obtain f evs' where
    r: "shelve_data_to_scheduled_events rt self ds = Inr evs'" and
    evs: "evs = ScheduledEvent_init self (sd_delay d) f (sd_repeat d) (Some (sd_delay_left d)) # evs'"
    by (auto split: sum.splits)
  from Cons.IH [OF r] evs show ?case
    by (auto simp: nth_Cons ScheduledEvent_init_def split: nat.splits)
qed

lemma list_index_append_fresh:
  "e \<notin> set xs \<Longrightarrow> list_index (xs @ [e]) e = Some (length xs)"
  by (induction xs) auto

lemma time_left_after_schedule:
  assumes "consistent s" and "e \<notin> set (scheduled_events s)"
  shows "time_left_to_event_execution rt t e (schedule_rounded rt now e s) =
           Inr (fl rt (fl rt (now + delay_left_or_delay (events s e)) - t))"
  using assms
  by (simp add: time_left_to_event_execution_def schedule_rounded_def Let_def consistent_def
      list_index_append_fresh nth_append)

lemma accurate_nonneg: "accurate u f \<Longrightarrow> 0 \<le> u"
proof -
  assume "accurate u f"
  then have "\<bar>f 1 - 1\<bar> \<le> u * \<bar>1\<bar>" unfolding accurate_def by blast
  then show ?thesis by simp
qed

text \<open>The error of a rounded sum followed by a rounded difference.\<close>

lemma rounded_sum_difference:
  assumes acc: "accurate u f"
  shows "\<bar>f (f (now + d) - later) - (d - (later - now))\<bar>
           \<le> u * \<bar>d - (later - now)\<bar> + u * (1 + u) * \<bar>now + d\<bar>"
proof -
  have u: "0 \<le> u" by (rule accurate_nonneg [OF acc])
  define e1 where "e1 = f (now + d) - (now + d)"
  have e1: "\<bar>e1\<bar> \<le> u * \<bar>now + d\<bar>"
    using acc by (simp add: accurate_def e1_def)
  have diff: "f (now + d) - later = (d - (later - now)) + e1"
    by (simp add: e1_def)
  have "\<bar>f (f (now + d) - later) - (f (now + d) - later)\<bar> \<le> u * \<bar>f (now + d) - later\<bar>"
    using acc by (simp add: accurate_def)
  also have "\<dots> \<le> u * (\<bar>d - (later - now)\<bar> + \<bar>e1\<bar>)"
    unfolding diff by (intro mult_left_mono u) simp
  finally have e2: "\<bar>f (f (now + d) - later) - (f (now + d) - later)\<bar>
      \<le> u * \<bar>d - (later - now)\<bar> + u * \<bar>e1\<bar>"
    by (simp add: algebra_simps)
  have e3: "u * \<bar>e1\<bar> \<le> u * (u * \<bar>now + d\<bar>)"
    by (intro mult_left_mono u e1)
  define A where "A = f (f (now + d) - later)"
  define B where "B = f (now + d) - later"
  define T where "T = d - (later - now)"
  define N where "N = u * \<bar>now + d\<bar>"
  have 1: "\<bar>A - B\<bar> \<le> u * \<bar>T\<bar> + u * \<bar>e1\<bar>"
    using e2 by (simp add: A_def B_def T_def)
  have 2: "B = T + e1" using diff by (simp add: B_def T_def)
  have 3: "\<bar>e1\<bar> \<le> N" using e1 by (simp add: N_def)
  have 4: "u * \<bar>e1\<bar> \<le> u * N" using e3 by (simp add: N_def)
  have "\<bar>A - T\<bar> \<le> u * \<bar>T\<bar> + (N + u * N)"
    using 1 2 3 4 by linarith
  also have "N + u * N = u * (1 + u) * \<bar>now + d\<bar>"
    by (simp add: N_def algebra_simps)
  finally show ?thesis by (simp add: A_def T_def)
qed


lemma owner_of_one_shape:
  "creator_events owner_of_one = [1]"
  "scheduled_events (scheduler_instance owner_of_one) = [1]"
  "execution_times (scheduler_instance owner_of_one) = [10]"
  "events (scheduler_instance owner_of_one) e =
     ScheduledEvent_init 0 10 ''scheduling_test'' (Finite 0) None"
  by (simp_all add: owner_of_one_def schedule_event_def add_event_to_scheduled_list_def
      EventsCreator_init_def EventsScheduler_init_def schedule_def delay_left_or_delay_def
      ScheduledEvent_init_def Let_def)

text \<open>
  C6, as stated: every event saved with its remaining delay and restored has that
  remaining delay left, within one tick. Saved at the very moment it is due, the event
  of \<open>owner_of_one\<close> is recorded with a remaining delay of 0; restored and scheduled at
  that same moment it has the full 10 seconds left. All the times involved are small
  whole numbers, whose sums and differences floats give exactly.
\<close>

theorem restore_with_zero_remaining_delay:
  "scheduled_events_to_shelve_data exact_runtime 10 owner_of_one = Inr [saved_when_due] \<and>
   sd_delay_left saved_when_due = 0 \<and>
   shelve_data_to_scheduled_events exact_runtime 0 [saved_when_due] = Inr [restored_when_due] \<and>
   time_left_to_event_execution exact_runtime 10 1
     (schedule_rounded exact_runtime 10 1 (EventsScheduler_init (\<lambda>_. restored_when_due))) =
     Inr 10"
  by (simp add: owner_of_one_shape scheduled_events_to_shelve_data_def
      time_left_to_event_execution_def schedule_rounded_def exact_runtime_def
      saved_when_due_def restored_when_due_def EventsScheduler_init_def
      delay_left_or_delay_def ScheduledEvent_init_def Let_def)

text \<open>
  C6, amended. For every event of an owner that is saved with a remaining delay other
  than 0, and every restore of the saved data that succeeds: the recorded remaining
  delay is the time the event had left when it was saved; and the re-created event,
  scheduled as a new object in a consistent registry, has the recorded remaining delay
  less the time gone by since it was scheduled left, up to the rounding of the sum and
  of the difference, which for a rounding accurate to \<open>u\<close> is bounded as stated. So
  when the time gone by and that rounding error together stay within one tick, the
  time left is within one tick of the recorded remaining delay.
\<close>

theorem restore_keeps_nonzero_remaining_delay:
  assumes "accurate u (fl rt)"
    and "scheduled_events_to_shelve_data rt saved_at c = Inr ds"
    and "k < length (creator_events c)"
    and "sd_delay_left (ds ! k) \<noteq> 0"
    and "shelve_data_to_scheduled_events rt self ds = Inr evs"
    and "events s e = evs ! k"
    and "consistent s" and "e \<notin> set (scheduled_events s)"
  shows "time_left_to_event_execution rt saved_at (creator_events c ! k) (scheduler_instance c) =
           Inr (sd_delay_left (ds ! k)) \<and>
         (\<exists>left. time_left_to_event_execution rt later e (schedule_rounded rt now e s) = Inr left \<and>
            \<bar>left - (sd_delay_left (ds ! k) - (later - now))\<bar>
              \<le> u * \<bar>sd_delay_left (ds ! k) - (later - now)\<bar> +
                 u * (1 + u) * \<bar>now + sd_delay_left (ds ! k)\<bar> \<and>
            (now \<le> later \<and>
             (later - now) + (u * \<bar>sd_delay_left (ds ! k) - (later - now)\<bar> +
                              u * (1 + u) * \<bar>now + sd_delay_left (ds ! k)\<bar>) \<le> tick \<longrightarrow>
               \<bar>left - sd_delay_left (ds ! k)\<bar> \<le> tick))"
proof -
  define r where "r = sd_delay_left (ds ! k)"
  from shelve_events_nth [OF assms(2) [unfolded scheduled_events_to_shelve_data_def]] assms(3)
  have len: "length ds = length (creator_events c)"
    and saved: "time_left_to_event_execution rt saved_at (creator_events c ! k)
                  (scheduler_instance c) = Inr r"
    by (auto simp: r_def)
  from restored_events_nth [OF assms(5)] assms(3) len
  have "delay_left (evs ! k) = Some r" by (simp add: r_def)
  then have d: "delay_left_or_delay (events s e) = r"
    using assms(4,6) by (simp add: delay_left_or_delay_def r_def)
  define left where "left = fl rt (fl rt (now + r) - later)"
  have tl: "time_left_to_event_execution rt later e (schedule_rounded rt now e s) = Inr left"
    using time_left_after_schedule [OF assms(7,8), of rt later now] d by (simp add: left_def)
  have err: "\<bar>left - (r - (later - now))\<bar>
              \<le> u * \<bar>r - (later - now)\<bar> + u * (1 + u) * \<bar>now + r\<bar>"
    unfolding left_def by (rule rounded_sum_difference [OF assms(1)])
  have within: "\<bar>left - r\<bar> \<le> tick"
    if "now \<le> later"
      and "(later - now) + (u * \<bar>r - (later - now)\<bar> + u * (1 + u) * \<bar>now + r\<bar>) \<le> tick"
    using that err by linarith
  from saved tl err within show ?thesis
    unfolding r_def by blast
qed

lemma inexact_runtime_accurate: "accurate (1 / 2 ^ 53) (fl inexact_runtime)"
  by (simp add: accurate_def inexact_runtime_def abs_mult)

theorem restore_keeps_nonzero_remaining_delay_witness:
  "accurate (1 / 2 ^ 53) (fl inexact_runtime) \<and>
   scheduled_events_to_shelve_data inexact_runtime 3 owner_of_one =
     Inr [saved_after_3\<lparr>sd_delay_left := 7 + 7 / 2 ^ 53\<rparr>] \<and>
   shelve_data_to_scheduled_events inexact_runtime 0
       [saved_after_3\<lparr>sd_delay_left := 7 + 7 / 2 ^ 53\<rparr>] =
     Inr [ScheduledEvent_init 0 10 ''scheduling_test'' (Finite 0) (Some (7 + 7 / 2 ^ 53))] \<and>
   (\<exists>left. time_left_to_event_execution inexact_runtime 50 1
             (schedule_rounded inexact_runtime 50 1
                (EventsScheduler_init
                   (\<lambda>_. ScheduledEvent_init 0 10 ''scheduling_test'' (Finite 0)
                          (Some (7 + 7 / 2 ^ 53))))) = Inr left \<and>
          \<bar>left - (7 + 7 / 2 ^ 53)\<bar> \<le> 1 / 60)"
proof -
  let ?d = "saved_after_3\<lparr>sd_delay_left := 7 + 7 / 2 ^ 53\<rparr>"
  let ?ev = "ScheduledEvent_init 0 10 ''scheduling_test'' (Finite 0) (Some (7 + 7 / 2 ^ 53))"
  let ?s = "EventsScheduler_init (\<lambda>_. ?ev)"
  have save: "scheduled_events_to_shelve_data inexact_runtime 3 owner_of_one = Inr [?d]"
    by (simp add: owner_of_one_shape scheduled_events_to_shelve_data_def
        time_left_to_event_execution_def inexact_runtime_def exact_runtime_def
        saved_after_3_def saved_when_due_def ScheduledEvent_init_def)
  have restore: "shelve_data_to_scheduled_events inexact_runtime 0 [?d] = Inr [?ev]"
    by (simp add: inexact_runtime_def exact_runtime_def saved_after_3_def saved_when_due_def)
  have k: "0 < length (creator_events owner_of_one)" by (simp add: owner_of_one_shape)
  have nz: "sd_delay_left ([?d] ! 0) \<noteq> 0" by simp
  have ev: "events ?s 1 = [?ev] ! 0" by (simp add: EventsScheduler_init_def)
  have c: "consistent ?s" "1 \<notin> set (scheduled_events ?s)"
    by (simp_all add: consistent_def EventsScheduler_init_def)
  have small: "50 \<le> (50 :: real) \<and>
     (50 - 50) + (1 / 2 ^ 53 * \<bar>sd_delay_left ([?d] ! 0) - (50 - 50)\<bar> +
        1 / 2 ^ 53 * (1 + 1 / 2 ^ 53) * \<bar>50 + sd_delay_left ([?d] ! 0)\<bar>) \<le> (1 / 60 :: real)"
    by simp
  from restore_keeps_nonzero_remaining_delay
    [OF inexact_runtime_accurate save k nz restore ev c, of 50 50 "1 / 60"] small
  have "\<exists>left. time_left_to_event_execution inexact_runtime 50 1
             (schedule_rounded inexact_runtime 50 1 ?s) = Inr left \<and>
          \<bar>left - (7 + 7 / 2 ^ 53)\<bar> \<le> 1 / 60"
    by auto
  with inexact_runtime_accurate save restore show ?thesis by blast
qed

lemma restore_of_unknown_function_raises:
  "shelve_data_to_scheduled_events exact_runtime 0
     [saved_when_due\<lparr>sd_function_name := ''move_to''\<rparr>] = Inl NameError"
  by (simp add: exact_runtime_def saved_when_due_def)

subsection \<open>Repeats\<close>

lemma list_pop_Cons_0 [simp]: "list_pop 0 (a # xs) = xs"
  by (simp add: list_pop_def)

lemma list_pop_Cons_Suc [simp]: "list_pop (Suc j) (a # xs) = a # list_pop j xs"
  by (simp add: list_pop_def)

lemma list_index_pop_other:
  "list_index xs e = Some p \<Longrightarrow> list_index xs x = Some j \<Longrightarrow> x \<noteq> e \<Longrightarrow>
     list_index (list_pop j xs) e = Some (if j < p then p - 1 else p)"
proof (induction xs arbitrary: p j)
  case Nil
  then show ?case by simp
next
  case (Cons a xs)
  show ?case
  proof (cases "a = e")
    case True
    with Cons.prems obtain j' where "j = Suc j'" "p = 0"
      by (auto split: if_splits)
    with True show ?thesis by simp
  next
    case ae: False
    with Cons.prems obtain p' where p': "p = Suc p'" "list_index xs e = Some p'"
      by (auto split: if_splits)
    show ?thesis
    proof (cases "a = x")
      case True
      with Cons.prems have "j = 0" by simp
      with p' show ?thesis by simp
    next
      case False
      with Cons.prems obtain j' where j': "j = Suc j'" "list_index xs x = Some j'"
        by (auto split: if_splits)
      from Cons.IH [OF p'(2) j'(2) Cons.prems(3)] p'(1) j'(1) ae
      show ?thesis by (cases p') auto
    qed
  qed
qed

lemma nth_list_pop_other:
  "j \<noteq> p \<Longrightarrow> p < length ts \<Longrightarrow> list_pop j ts ! (if j < p then p - 1 else p) = ts ! p"
  by (auto simp: list_pop_def nth_append min_def)

lemma list_index_append_left:
  "list_index xs e = Some p \<Longrightarrow> list_index (xs @ ys) e = Some p"
  by (induction xs arbitrary: p) (auto split: if_splits)

lemma list_index_le_nth:
  "i < length xs \<Longrightarrow> \<exists>j\<le>i. list_index xs (xs ! i) = Some j"
proof (induction xs arbitrary: i)
  case Nil
  then show ?case by simp
next
  case (Cons a xs)
  show ?case
  proof (cases i)
    case 0
    then show ?thesis by simp
  next
    case (Suc i')
    with Cons.prems have "i' < length xs" by simp
    from Cons.IH [OF this] obtain j where "j \<le> i'" "list_index xs (xs ! i') = Some j" by blast
    with Suc show ?thesis by auto
  qed
qed

lemma single_occurrence_index:
  "count_list xs e \<le> 1 \<Longrightarrow> list_index xs e = Some p \<Longrightarrow> i < length xs \<Longrightarrow> xs ! i = e \<Longrightarrow> i = p"
proof (induction xs arbitrary: p i)
  case Nil
  then show ?case by simp
next
  case (Cons a xs)
  show ?case
  proof (cases "a = e")
    case True
    with Cons.prems have p: "p = 0" and "count_list xs e = 0" by auto
    then have "e \<notin> set xs" by (simp add: count_list_0_iff)
    with Cons.prems(3,4) have "i = 0" by (cases i) auto
    with p show ?thesis by simp
  next
    case False
    with Cons.prems obtain p' where p': "p = Suc p'" "list_index xs e = Some p'"
      by (auto split: if_splits)
    from False Cons.prems(4) obtain i' where i': "i = Suc i'" by (cases i) auto
    from Cons.IH [of p' i'] Cons.prems False p' i' show ?thesis by auto
  qed
qed


lemma execute_consistent: "consistent s \<Longrightarrow> consistent (execute e s)"
  by (simp add: consistent_def execute_def)

lemma update_loop_indexed_invariant:
  assumes "P i s"
    and cons: "\<And>i s. P i s \<Longrightarrow> consistent s"
    and skip: "\<And>i s. P i s \<Longrightarrow> i < length (scheduled_events s) \<Longrightarrow>
                 \<not> execution_times s ! i \<le> t \<Longrightarrow> P (Suc i) s"
    and step: "\<And>i s s1. P i s \<Longrightarrow> i < length (scheduled_events s) \<Longrightarrow>
                 execution_times s ! i \<le> t \<Longrightarrow>
                 unschedule (scheduled_events s ! i) (execute (scheduled_events s ! i) s) = Inr s1 \<Longrightarrow>
                 P (Suc i) (refire t (scheduled_events s ! i) s1)"
  shows "\<exists>s' k. update_loop t i s = Inr s' \<and> P k s' \<and> length (scheduled_events s') \<le> k"
proof -
  have "time = t \<Longrightarrow> P i s \<Longrightarrow>
          \<exists>s' k. update_loop time i s = Inr s' \<and> P k s' \<and> length (scheduled_events s') \<le> k"
    for time
  proof (induction time i s rule: update_loop.induct)
    case (1 time i s)
    note t = \<open>time = t\<close> and P = \<open>P i s\<close>
    have c: "consistent s" by (rule cons [OF P])
    show ?case
    proof (cases "i < length (scheduled_events s)")
      case False
      then have "update_loop time i s = Inr s" by (simp add: update_loop.simps [of time i s])
      with P False show ?thesis by auto
    next
      case True
      then have i2: "i < length (execution_times s)" using c by (simp add: consistent_def)
      show ?thesis
      proof (cases "execution_times s ! i \<le> time")
        case False
        then have "P (Suc i) s" using skip [OF P True] t by simp
        note ih = "1.IH"(2) [OF True i2 False t this]
        have "update_loop time i s = update_loop time (Suc i) s"
          using True i2 False by (simp add: update_loop.simps [of time i s])
        with ih show ?thesis by (simp only:)
      next
        case due: True
        let ?e = "scheduled_events s ! i"
        from unschedule_consistent [OF execute_consistent [OF c], of ?e ?e]
        obtain s1 where s1: "unschedule ?e (execute ?e s) = Inr s1" by blast
        let ?s2 = "if repeat_truthy (repeat (events s1 ?e))
                   then schedule time ?e (decrement_repeat ?e s1) else s1"
        have due': "execution_times s ! i \<le> t" using due t by simp
        have "P (Suc i) ?s2"
          using step [OF P True due' s1] unfolding t refire_def .
        note ih = "1.IH"(1) [OF True i2 due s1 t this]
        have "update_loop time i s = update_loop time (Suc i) ?s2"
          using True i2 due s1 by (simp add: update_loop.simps [of time i s])
        with ih show ?thesis by (simp only:)
      qed
    qed
  qed
  from this [OF refl assms(1)] show ?thesis .
qed

lemma update_invariant:
  assumes "P s"
    and cons: "\<And>s. P s \<Longrightarrow> consistent s"
    and step: "\<And>i s s1. P s \<Longrightarrow> i < length (scheduled_events s) \<Longrightarrow>
                 unschedule (scheduled_events s ! i) (execute (scheduled_events s ! i) s) = Inr s1 \<Longrightarrow>
                 P (refire t (scheduled_events s ! i) s1)"
  shows "\<exists>s'. update t s = Inr s' \<and> P s'"
proof -
  have "\<exists>s' k. update_loop t 0 s = Inr s' \<and> P s' \<and> length (scheduled_events s') \<le> k"
    by (rule update_loop_indexed_invariant [where P = "\<lambda>i. P"])
       (use assms in \<open>auto intro: step\<close>)
  then show ?thesis by (auto simp: update_def)
qed

text \<open>The state after one firing, as seen from the registry.\<close>

lemma fire_step_shape:
  assumes c: "consistent s" and i: "i < length (scheduled_events s)"
    and u: "unschedule (scheduled_events s ! i) (execute (scheduled_events s ! i) s) = Inr s1"
  shows "\<exists>j\<le>i. list_index (scheduled_events s) (scheduled_events s ! i) = Some j \<and>
           s1 = s\<lparr>executed := executed s @ [scheduled_events s ! i],
                   scheduled_events := list_pop j (scheduled_events s),
                   execution_times := list_pop j (execution_times s)\<rparr>"
proof -
  let ?x = "scheduled_events s ! i"
  from list_index_le_nth [OF i] obtain j where
    j: "j \<le> i" "list_index (scheduled_events s) ?x = Some j" by blast
  then have "list_index (scheduled_events (execute ?x s)) ?x = Some j"
    by (simp add: execute_def)
  from unschedule_present [OF execute_consistent [OF c] this] u
  have "s1 = s\<lparr>executed := executed s @ [?x],
                   scheduled_events := list_pop j (scheduled_events s),
                   execution_times := list_pop j (execution_times s)\<rparr>"
    by (simp add: execute_def)
  with j show ?thesis by blast
qed


lemma count_list_pop:
  "list_index xs x = Some j \<Longrightarrow>
     count_list (list_pop j xs) y = (if y = x then count_list xs y - 1 else count_list xs y)"
proof (induction xs arbitrary: j)
  case Nil
  then show ?case by simp
next
  case (Cons a xs)
  show ?case
  proof (cases "a = x")
    case True
    with Cons.prems have "j = 0" by simp
    with True show ?thesis by simp
  next
    case False
    with Cons.prems obtain j' where j': "j = Suc j'" "list_index xs x = Some j'"
      by (auto split: if_splits)
    have "count_list xs x \<noteq> 0"
      using j'(2) list_index_None_iff [of xs x] by (simp add: count_list_0_iff)
    with Cons.IH [OF j'(2)] j'(1) False show ?thesis by auto
  qed
qed

lemma fire_any:
  assumes c: "consistent s" and i: "i < length (scheduled_events s)"
    and u: "unschedule (scheduled_events s ! i) (execute (scheduled_events s ! i) s) = Inr s1"
  shows "consistent (refire t (scheduled_events s ! i) s1)"
    and "length (scheduled_events (refire t (scheduled_events s ! i) s1))
           \<le> length (scheduled_events s)"
    and "fired e s \<le> fired e (refire t (scheduled_events s ! i) s1)"
    and "scheduled_events s ! i = e \<Longrightarrow>
           fired e (refire t (scheduled_events s ! i) s1) = Suc (fired e s)"
proof -
  let ?s2 = "refire t (scheduled_events s ! i) s1"
  from fire_step_shape [OF c i u] obtain j where
    j: "j \<le> i" "list_index (scheduled_events s) (scheduled_events s ! i) = Some j" and
    s1: "s1 = s\<lparr>executed := executed s @ [scheduled_events s ! i],
                   scheduled_events := list_pop j (scheduled_events s),
                   execution_times := list_pop j (execution_times s)\<rparr>"
    by blast
  have jl: "j < length (scheduled_events s)" using j(1) i by simp
  show "consistent ?s2"
    using c jl by (simp add: refire_def s1 consistent_def schedule_def decrement_repeat_def Let_def
        length_list_pop_if)
  show "length (scheduled_events ?s2) \<le> length (scheduled_events s)"
    using jl by (auto simp: refire_def s1 schedule_def decrement_repeat_def Let_def length_list_pop_if)
  show "fired e s \<le> fired e ?s2"
    by (simp add: refire_def s1 fired_def schedule_def decrement_repeat_def Let_def)
  show "scheduled_events s ! i = e \<Longrightarrow> fired e ?s2 = Suc (fired e s)"
    by (simp add: refire_def s1 fired_def schedule_def decrement_repeat_def Let_def)
qed

lemma fire_other:
  assumes c: "consistent s" and i: "i < length (scheduled_events s)"
    and u: "unschedule (scheduled_events s ! i) (execute (scheduled_events s ! i) s) = Inr s1"
    and ne: "scheduled_events s ! i \<noteq> e"
  shows "fired e (refire t (scheduled_events s ! i) s1) = fired e s"
    and "events (refire t (scheduled_events s ! i) s1) e = events s e"
    and "count_list (scheduled_events (refire t (scheduled_events s ! i) s1)) e =
           count_list (scheduled_events s) e"
    and "list_index (scheduled_events s) e = Some p \<Longrightarrow>
           \<exists>p'. list_index (scheduled_events (refire t (scheduled_events s ! i) s1)) e = Some p' \<and>
                execution_times (refire t (scheduled_events s ! i) s1) ! p' = execution_times s ! p \<and>
                p' \<le> p \<and> (i < p \<longrightarrow> p' = p - 1)"
proof -
  let ?x = "scheduled_events s ! i"
  let ?s2 = "refire t (scheduled_events s ! i) s1"
  from fire_step_shape [OF c i u] obtain j where
    j: "j \<le> i" "list_index (scheduled_events s) ?x = Some j" and
    s1: "s1 = s\<lparr>executed := executed s @ [?x],
                   scheduled_events := list_pop j (scheduled_events s),
                   execution_times := list_pop j (execution_times s)\<rparr>"
    by blast
  show "fired e ?s2 = fired e s"
    using ne by (simp add: refire_def s1 fired_def schedule_def decrement_repeat_def Let_def)
  show "events ?s2 e = events s e"
    using ne by (simp add: refire_def s1 schedule_def decrement_repeat_def Let_def)
  show "count_list (scheduled_events ?s2) e = count_list (scheduled_events s) e"
    using ne count_list_pop [OF j(2), of e]
    by (simp add: refire_def s1 schedule_def decrement_repeat_def Let_def)
  show "\<exists>p'. list_index (scheduled_events ?s2) e = Some p' \<and>
                execution_times ?s2 ! p' = execution_times s ! p \<and>
                p' \<le> p \<and> (i < p \<longrightarrow> p' = p - 1)"
    if p: "list_index (scheduled_events s) e = Some p"
  proof -
    define q where "q = (if j < p then p - 1 else p)"
    have pl: "p < length (scheduled_events s)" by (rule list_index_Some_less [OF p])
    have jp: "j \<noteq> p"
      using list_index_nth [OF p] list_index_nth [OF j(2)] ne by auto
    have 1: "list_index (list_pop j (scheduled_events s)) e = Some q"
      unfolding q_def by (rule list_index_pop_other [OF p j(2) ne])
    have 2: "list_pop j (execution_times s) ! q = execution_times s ! p"
      unfolding q_def using pl c by (intro nth_list_pop_other [OF jp]) (simp add: consistent_def)
    have 3: "q < length (list_pop j (execution_times s))"
      using list_index_Some_less [OF 1] c i j(1)
      by (simp add: consistent_def length_list_pop_if)
    have "list_index (scheduled_events ?s2) e = Some q"
      using 1 by (simp add: refire_def s1 schedule_def decrement_repeat_def Let_def list_index_append_left)
    moreover have "execution_times ?s2 ! q = execution_times s ! p"
      using 2 3 by (simp add: refire_def s1 schedule_def decrement_repeat_def Let_def nth_append)
    moreover have "q \<le> p \<and> (i < p \<longrightarrow> q = p - 1)"
      using j(1) by (auto simp: q_def)
    ultimately show ?thesis by blast
  qed
qed


lemma pass_effect:
  assumes c: "consistent s" and one: "count_list (scheduled_events s) e = 1"
    and p0: "list_index (scheduled_events s) e = Some p0"
  shows "\<exists>s'. update t s = Inr s' \<and> consistent s' \<and>
     (fired e s < fired e s' \<and> execution_times s ! p0 \<le> t
      \<or> fired e s' = fired e s \<and> count_list (scheduled_events s') e = 1 \<and>
        events s' e = events s e \<and>
        (\<exists>p. list_index (scheduled_events s') e = Some p \<and>
             execution_times s' ! p = execution_times s ! p0 \<and> p \<le> p0 \<and>
             (execution_times s ! p0 \<le> t \<longrightarrow> p < p0)))"
proof -
  define F0 where "F0 = fired e s"
  define x0 where "x0 = execution_times s ! p0"
  define ev0 where "ev0 = events s e"
  define Q where "Q i s' p \<longleftrightarrow>
      list_index (scheduled_events s') e = Some p \<and> execution_times s' ! p = x0 \<and> p \<le> p0 \<and>
      (x0 \<le> t \<longrightarrow> i \<le> p \<or> p < p0 \<and> p < i)"
    for i and s' :: EventsScheduler and p
  define P where "P i s' \<longleftrightarrow> consistent s' \<and>
      (F0 < fired e s' \<and> x0 \<le> t
       \<or> fired e s' = F0 \<and> count_list (scheduled_events s') e = 1 \<and> events s' e = ev0 \<and>
         (\<exists>p. Q i s' p))" for i and s' :: EventsScheduler
  have init: "P 0 s"
    using c one p0 by (auto simp: P_def Q_def F0_def x0_def ev0_def)
  have cons: "\<And>i s'. P i s' \<Longrightarrow> consistent s'"
    by (simp add: P_def)
  have skip: "P (Suc i) s'"
    if P: "P i s'" and i: "i < length (scheduled_events s')"
      and nd: "\<not> execution_times s' ! i \<le> t" for i s'
  proof -
    from P consider (served) "F0 < fired e s'" "x0 \<le> t"
      | (wait) p where "fired e s' = F0" "count_list (scheduled_events s') e = 1"
          "events s' e = ev0" "Q i s' p"
      by (auto simp: P_def)
    then show ?thesis
    proof cases
      case served
      with P show ?thesis by (simp add: P_def)
    next
      case wait
      from wait(4) nd have "x0 \<le> t \<longrightarrow> i \<noteq> p" by (auto simp: Q_def)
      with wait(4) have "Q (Suc i) s' p" by (auto simp: Q_def)
      with wait P show ?thesis by (auto simp: P_def)
    qed
  qed
  have step: "P (Suc i) (refire t (scheduled_events s' ! i) s1)"
    if P: "P i s'" and i: "i < length (scheduled_events s')"
      and due: "execution_times s' ! i \<le> t"
      and u: "unschedule (scheduled_events s' ! i) (execute (scheduled_events s' ! i) s') = Inr s1"
    for i s' s1
  proof -
    let ?s2 = "refire t (scheduled_events s' ! i) s1"
    have c': "consistent s'" using P by (simp add: P_def)
    note any = fire_any [OF c' i u]
    from P consider (served) "F0 < fired e s'" "x0 \<le> t"
      | (wait) p where "fired e s' = F0" "count_list (scheduled_events s') e = 1"
          "events s' e = ev0" "Q i s' p"
      by (auto simp: P_def)
    then show ?thesis
    proof cases
      case served
      have "F0 < fired e ?s2" using served(1) any(3) by (rule less_le_trans)
      with served(2) any(1) show ?thesis by (simp add: P_def)
    next
      case wait
      have lp: "list_index (scheduled_events s') e = Some p" using wait(4) by (simp add: Q_def)
      show ?thesis
      proof (cases "scheduled_events s' ! i = e")
        case True
        have "i = p"
          using single_occurrence_index [OF _ lp i True] wait(2) by simp
        with wait(4) due have "x0 \<le> t" by (simp add: Q_def)
        moreover have "F0 < fired e ?s2" using any(4) [OF True] wait(1) by simp
        ultimately show ?thesis using any(1) by (simp add: P_def)
      next
        case False
        note oth = fire_other [OF c' i u False]
        from oth(4) [OF lp] obtain p' where p':
          "list_index (scheduled_events ?s2) e = Some p'"
          "execution_times ?s2 ! p' = execution_times s' ! p"
          "p' \<le> p" "i < p \<longrightarrow> p' = p - 1"
          by blast
        have "i \<noteq> p" using list_index_nth [OF lp] False by auto
        with wait(4) p' have "Q (Suc i) ?s2 p'"
          by (auto simp: Q_def)
        with oth(1,2,3) wait(1,2,3) any(1) show ?thesis
          by (auto simp: P_def)
      qed
    qed
  qed
  have "\<exists>s' k. update_loop t 0 s = Inr s' \<and> P k s' \<and> length (scheduled_events s') \<le> k"
  proof (rule update_loop_indexed_invariant [where P = P])
    show "P 0 s" by (rule init)
    show "consistent s'" if "P i s'" for i s' using that by (rule cons)
    show "P (Suc i) s'"
      if "P i s'" "i < length (scheduled_events s')" "\<not> execution_times s' ! i \<le> t" for i s'
      using that by (rule skip)
    show "P (Suc i) (refire t (scheduled_events s' ! i) s1)"
      if "P i s'" "i < length (scheduled_events s')" "execution_times s' ! i \<le> t"
        "unschedule (scheduled_events s' ! i) (execute (scheduled_events s' ! i) s') = Inr s1"
      for i s' s1
      using that by (rule step)
  qed
  then obtain s' k where
    r: "update_loop t 0 s = Inr s'" "P k s'" "length (scheduled_events s') \<le> k"
    by blast
  have "fired e s < fired e s' \<and> execution_times s ! p0 \<le> t
      \<or> fired e s' = fired e s \<and> count_list (scheduled_events s') e = 1 \<and>
        events s' e = events s e \<and>
        (\<exists>p. list_index (scheduled_events s') e = Some p \<and>
             execution_times s' ! p = execution_times s ! p0 \<and> p \<le> p0 \<and>
             (execution_times s ! p0 \<le> t \<longrightarrow> p < p0))"
  proof -
    from r(2) consider (served) "F0 < fired e s'" "x0 \<le> t"
      | (wait) p where "fired e s' = F0" "count_list (scheduled_events s') e = 1"
          "events s' e = ev0" "Q k s' p"
      by (auto simp: P_def)
    then show ?thesis
    proof cases
      case served
      then show ?thesis by (simp add: F0_def x0_def)
    next
      case wait
      from wait(4) have "p < length (scheduled_events s')"
        by (auto simp: Q_def dest: list_index_Some_less)
      with r(3) have "\<not> k \<le> p" by simp
      with wait show ?thesis by (auto simp: Q_def F0_def x0_def ev0_def)
    qed
  qed
  with r(1,2) show ?thesis by (auto simp: update_def P_def)
qed


lemma budget_inv_step:
  assumes inv: "budget_inv e K s" and i: "i < length (scheduled_events s)"
    and u: "unschedule (scheduled_events s ! i) (execute (scheduled_events s ! i) s) = Inr s1"
  shows "budget_inv e K (refire t (scheduled_events s ! i) s1)"
proof -
  let ?x = "scheduled_events s ! i"
  have c: "consistent s" using inv by (simp add: budget_inv_def)
  from fire_step_shape [OF c i u] obtain j where
    j: "j \<le> i" "list_index (scheduled_events s) ?x = Some j" and
    s1: "s1 = s\<lparr>executed := executed s @ [?x],
                   scheduled_events := list_pop j (scheduled_events s),
                   execution_times := list_pop j (execution_times s)\<rparr>"
    by blast
  have jl: "j < length (scheduled_events s)" using j(1) i by simp
  have cnt: "count_list (list_pop j (scheduled_events s)) e =
                 (if e = ?x then count_list (scheduled_events s) e - 1
                  else count_list (scheduled_events s) e)"
    by (rule count_list_pop [OF j(2)])
  have xpos: "count_list (scheduled_events s) ?x \<noteq> 0"
    using i by (simp add: count_list_0_iff)
  show ?thesis
  proof (cases "?x = e")
    case True
    with inv xpos obtain n where n: "repeat (events s e) = Finite n" "0 \<le> n"
        "int (fired e s) + n + 1 = int K" "count_list (scheduled_events s) e = 1"
      by (auto simp: budget_inv_def split: repeat_count.splits if_splits)
    show ?thesis
      using True n c jl cnt
      by (auto simp: budget_inv_def refire_def s1 schedule_def decrement_repeat_def Let_def
          fired_def consistent_def length_list_pop_if)
  next
    case False
    show ?thesis
      using False inv c jl cnt
      by (auto simp: budget_inv_def refire_def s1 schedule_def decrement_repeat_def Let_def
          fired_def consistent_def length_list_pop_if split: repeat_count.splits if_splits)
  qed
qed

lemma update_budget_inv:
  assumes "budget_inv e K s"
  shows "\<exists>s'. update t s = Inr s' \<and> budget_inv e K s'"
proof (rule update_invariant [where P = "budget_inv e K"])
  show "budget_inv e K s" by (rule assms)
  show "consistent s'" if "budget_inv e K s'" for s' using that by (simp add: budget_inv_def)
  show "budget_inv e K (refire t (scheduled_events s' ! i) s1)"
    if "budget_inv e K s'" "i < length (scheduled_events s')"
      "unschedule (scheduled_events s' ! i) (execute (scheduled_events s' ! i) s') = Inr s1"
    for i s' s1
    using that by (rule budget_inv_step)
qed

lemma update_length:
  assumes "consistent s"
  shows "\<exists>s'. update t s = Inr s' \<and> length (scheduled_events s') \<le> length (scheduled_events s)"
proof -
  have "\<exists>s'. update t s = Inr s' \<and>
          (consistent s' \<and> length (scheduled_events s') \<le> length (scheduled_events s))"
  proof (rule update_invariant
      [where P = "\<lambda>s'. consistent s' \<and> length (scheduled_events s') \<le> length (scheduled_events s)"])
    show "consistent s \<and> length (scheduled_events s) \<le> length (scheduled_events s)"
      using assms by simp
    show "consistent s'"
      if "consistent s' \<and> length (scheduled_events s') \<le> length (scheduled_events s)" for s'
      using that by simp
    show "consistent (refire t (scheduled_events s' ! i) s1) \<and>
          length (scheduled_events (refire t (scheduled_events s' ! i) s1)) \<le> length (scheduled_events s)"
      if "consistent s' \<and> length (scheduled_events s') \<le> length (scheduled_events s)"
        "i < length (scheduled_events s')"
        "unschedule (scheduled_events s' ! i) (execute (scheduled_events s' ! i) s') = Inr s1"
      for i s' s1
      using fire_any(1,2) [OF _ that(2,3), of t] that(1) by (meson order_trans)
  qed
  then show ?thesis by blast
qed

lemma update_gone:
  assumes "consistent s" and "e \<notin> set (scheduled_events s)"
  shows "\<exists>s'. update t s = Inr s' \<and> consistent s' \<and> e \<notin> set (scheduled_events s') \<and>
              fired e s' = fired e s"
proof -
  let ?P = "\<lambda>s'. consistent s' \<and> count_list (scheduled_events s') e = 0 \<and> fired e s' = fired e s"
  have "\<exists>s'. update t s = Inr s' \<and> ?P s'"
  proof (rule update_invariant [where P = ?P])
    show "?P s" using assms by simp
    show "consistent s'" if "?P s'" for s' using that by simp
    show "?P (refire t (scheduled_events s' ! i) s1)"
      if P: "?P s'" and i: "i < length (scheduled_events s')"
        and u: "unschedule (scheduled_events s' ! i) (execute (scheduled_events s' ! i) s') = Inr s1"
      for i s' s1
    proof -
      have c: "consistent s'" using P by simp
      have "e \<notin> set (scheduled_events s')" using P by (simp add: count_list_0_iff)
      with i have ne: "scheduled_events s' ! i \<noteq> e" by (metis nth_mem)
      from fire_any(1) [OF c i u] fire_other(1,3) [OF c i u ne] P
      show ?thesis by simp
    qed
  qed
  then show ?thesis by (auto simp: count_list_0_iff)
qed


lemma run_append:
  "run (ts @ ts') s = (case run ts s of Inl err \<Rightarrow> Inl err | Inr s' \<Rightarrow> run ts' s')"
  by (induction ts arbitrary: s) (auto split: sum.splits)

lemma run_budget_inv:
  "budget_inv e K s \<Longrightarrow> \<exists>s'. run ts s = Inr s' \<and> budget_inv e K s'"
proof (induction ts arbitrary: s)
  case Nil
  then show ?case by simp
next
  case (Cons t ts)
  from update_budget_inv [OF Cons.prems, of t] obtain s1 where
    s1: "update t s = Inr s1" "budget_inv e K s1" by blast
  from Cons.IH [OF s1(2)] s1(1) show ?case by simp
qed

lemma run_gone:
  "consistent s \<Longrightarrow> e \<notin> set (scheduled_events s) \<Longrightarrow>
     \<exists>s'. run ts s = Inr s' \<and> e \<notin> set (scheduled_events s') \<and> fired e s' = fired e s"
proof (induction ts arbitrary: s)
  case Nil
  then show ?case by simp
next
  case (Cons t ts)
  from update_gone [OF Cons.prems, of t] obtain s1 where
    s1: "update t s = Inr s1" "consistent s1" "e \<notin> set (scheduled_events s1)"
      "fired e s1 = fired e s" by blast
  from Cons.IH [OF s1(2,3)] s1(1,4) show ?case by simp
qed

lemma is_due_single:
  assumes c: "consistent s" and one: "count_list (scheduled_events s) e \<le> 1"
    and p: "list_index (scheduled_events s) e = Some p"
  shows "is_due e t s \<longleftrightarrow> execution_times s ! p \<le> t"
proof
  assume "is_due e t s"
  then obtain x where x: "(e, x) \<in> set (entries s)" "x \<le> t"
    by (auto simp: is_due_def)
  then obtain i where i: "i < length (entries s)" "entries s ! i = (e, x)"
    by (auto simp: in_set_conv_nth)
  then have "i < length (scheduled_events s)" "scheduled_events s ! i = e"
      "execution_times s ! i = x"
    using c by (auto simp: entries_def consistent_def)
  with single_occurrence_index [OF one p, of i] x(2) show "execution_times s ! p \<le> t"
    by simp
next
  assume le: "execution_times s ! p \<le> t"
  have pl: "p < length (scheduled_events s)" by (rule list_index_Some_less [OF p])
  then have "entries s ! p = (e, execution_times s ! p)" "p < length (entries s)"
    using c list_index_nth [OF p] by (auto simp: entries_def consistent_def)
  then have "(e, execution_times s ! p) \<in> set (entries s)"
    by (metis nth_mem)
  with le show "is_due e t s" by (auto simp: is_due_def)
qed

lemma is_due_absent: "e \<notin> set (scheduled_events s) \<Longrightarrow> \<not> is_due e t s"
  by (auto simp: is_due_def entries_def dest: set_zip_leftD)

lemma tick_potential:
  assumes inv: "budget_inv e K s" and len: "length (scheduled_events s) \<le> L"
  shows "\<exists>s'. update t s = Inr s' \<and> budget_inv e K s' \<and> length (scheduled_events s') \<le> L \<and>
           potential e L s' + (if is_due e t s then 1 else 0) \<le> potential e L s"
proof -
  have c: "consistent s" using inv by (simp add: budget_inv_def)
  from update_budget_inv [OF inv, of t] obtain s' where
    s': "update t s = Inr s'" "budget_inv e K s'" by blast
  from update_length [OF c, of t] s'(1) len have len': "length (scheduled_events s') \<le> L"
    by auto
  have "potential e L s' + (if is_due e t s then 1 else 0) \<le> potential e L s"
  proof (cases "e \<in> set (scheduled_events s)")
    case False
    from update_gone [OF c False, of t] s'(1) have "e \<notin> set (scheduled_events s')" by auto
    then have "potential e L s' = 0"
      by (simp add: potential_def list_index_None_iff [THEN iffD2])
    with is_due_absent [OF False] show ?thesis by simp
  next
    case True
    then have "count_list (scheduled_events s) e \<noteq> 0"
      by (simp add: count_list_0_iff)
    moreover have "count_list (scheduled_events s) e \<le> 1"
      using inv by (simp add: budget_inv_def)
    ultimately have one: "count_list (scheduled_events s) e = 1" by simp
    from inv one obtain n where n: "repeat (events s e) = Finite n" "0 \<le> n"
        "int (fired e s) + n + 1 = int K"
      by (auto simp: budget_inv_def split: repeat_count.splits)
    from list_index_member [OF True] obtain p0 where
      p0: "list_index (scheduled_events s) e = Some p0" by blast
    have pot: "potential e L s = nat n * L + p0 + 1"
      by (simp add: potential_def p0 n)
    have due: "is_due e t s \<longleftrightarrow> execution_times s ! p0 \<le> t"
      by (rule is_due_single [OF c _ p0]) (simp add: one)
    from pass_effect [OF c one p0, of t] s'(1)
    consider (served) "fired e s < fired e s'" "execution_times s ! p0 \<le> t"
      | (wait) p where "fired e s' = fired e s" "events s' e = events s e"
          "list_index (scheduled_events s') e = Some p" "p \<le> p0"
          "execution_times s ! p0 \<le> t \<longrightarrow> p < p0"
      by auto
    then show ?thesis
    proof cases
      case served
      show ?thesis
      proof (cases "list_index (scheduled_events s') e")
        case None
        then have "potential e L s' = 0" by (simp add: potential_def)
        with pot show ?thesis by simp
      next
        case (Some p)
        then have "count_list (scheduled_events s') e \<noteq> 0"
          using list_index_None_iff [of "scheduled_events s'" e] by (simp add: count_list_0_iff)
        with s'(2) obtain n' where n': "repeat (events s' e) = Finite n'" "0 \<le> n'"
            "int (fired e s') + n' + 1 = int K"
          by (auto simp: budget_inv_def split: repeat_count.splits)
        from n(3) n'(3) served(1) have "n' < n" by simp
        with n'(2) have "nat n' + 1 \<le> nat n" by simp
        then have "(nat n' + 1) * L \<le> nat n * L" by (rule mult_le_mono1)
        moreover have "p + 1 \<le> L"
          using list_index_Some_less [OF Some] len' by simp
        ultimately have "nat n' * L + p + 1 \<le> nat n * L" by simp
        moreover have "potential e L s' = nat n' * L + p + 1"
          by (simp add: potential_def Some n')
        ultimately show ?thesis using pot by simp
      qed
    next
      case wait
      have "potential e L s' = nat n * L + p + 1"
        using wait(2,3) n(1) by (simp add: potential_def)
      with wait(4,5) due pot show ?thesis by auto
    qed
  qed
  with s' len' show ?thesis by blast
qed

lemma run_completes:
  assumes "budget_inv e K s" and "length (scheduled_events s) \<le> L"
    and "potential e L s \<le> due_ticks e ts s"
  shows "\<exists>s'. run ts s = Inr s' \<and> e \<notin> set (scheduled_events s')"
  using assms
proof (induction ts arbitrary: s)
  case Nil
  then have pot: "potential e L s = 0" by simp
  have "list_index (scheduled_events s) e = None"
  proof (cases "list_index (scheduled_events s) e")
    case None
    then show ?thesis .
  next
    case (Some p)
    then have "count_list (scheduled_events s) e \<noteq> 0"
      using list_index_None_iff [of "scheduled_events s" e] by (simp add: count_list_0_iff)
    with Nil.prems(1) obtain n where "repeat (events s e) = Finite n"
      by (auto simp: budget_inv_def split: repeat_count.splits)
    with Some pot show ?thesis by (simp add: potential_def)
  qed
  then show ?case by (simp add: list_index_None_iff)
next
  case (Cons t ts)
  from tick_potential [OF Cons.prems(1,2), of t] obtain s1 where
    s1: "update t s = Inr s1" "budget_inv e K s1" "length (scheduled_events s1) \<le> L"
      "potential e L s1 + (if is_due e t s then 1 else 0) \<le> potential e L s"
    by blast
  from Cons.prems(3) s1(1,4) have "potential e L s1 \<le> due_ticks e ts s1"
    by (simp split: if_splits)
  from Cons.IH [OF s1(2,3) this] s1(1) show ?case by simp
qed


text \<open>
  C5. An event that is in the registry once, with a finite repeat count \<open>N\<close>, is
  executed \<open>N + 1\<close> times in total. Whatever the ticks of a run, the run does not fail,
  the event has been executed at most \<open>N + 1\<close> times more than before, and exactly
  \<open>N + 1\<close> times more if and only if it is no longer in the registry; it has left the
  registry as soon as \<open>(N + 1) * L\<close> ticks have found it due, \<open>L\<close> being the
  length of the registry at the start (a due event can be passed over in a tick, but
  then it moves towards the front); and once it has left the registry no later tick
  executes it or brings it back.
\<close>

theorem finite_repeat_fires_N_plus_1_times:
  assumes "consistent s0" and "count_list (scheduled_events s0) e = 1"
    and "repeat (events s0 e) = Finite (int N)"
  shows "\<exists>s. run ts s0 = Inr s \<and>
           fired e s \<le> fired e s0 + (N + 1) \<and>
           (e \<notin> set (scheduled_events s) \<longleftrightarrow> fired e s = fired e s0 + (N + 1)) \<and>
           ((N + 1) * length (scheduled_events s0) \<le> due_ticks e ts s0 \<longrightarrow>
              e \<notin> set (scheduled_events s)) \<and>
           (e \<notin> set (scheduled_events s) \<longrightarrow>
              (\<exists>s'. run (ts @ ts') s0 = Inr s' \<and> e \<notin> set (scheduled_events s') \<and>
                    fired e s' = fired e s))"
proof -
  define K where "K = fired e s0 + (N + 1)"
  define L where "L = length (scheduled_events s0)"
  have inv0: "budget_inv e K s0"
    using assms by (simp add: budget_inv_def K_def)
  from run_budget_inv [OF inv0, of ts] obtain s where
    s: "run ts s0 = Inr s" "budget_inv e K s" by blast
  have c: "consistent s" using s(2) by (simp add: budget_inv_def)
  have bound: "fired e s \<le> K" and iff: "e \<notin> set (scheduled_events s) \<longleftrightarrow> fired e s = K"
    using s(2)
    by (auto simp: budget_inv_def count_list_0_iff split: if_splits repeat_count.splits)
  have live: "e \<notin> set (scheduled_events s)" if enough: "(N + 1) * L \<le> due_ticks e ts s0"
  proof -
    have "e \<in> set (scheduled_events s0)"
      using assms(2) count_list_0_iff [of "scheduled_events s0" e] by auto
    from list_index_member [OF this] obtain p0 where
      p0: "list_index (scheduled_events s0) e = Some p0" by blast
    have "p0 + 1 \<le> L" using list_index_Some_less [OF p0] by (simp add: L_def)
    moreover have "potential e L s0 = N * L + p0 + 1"
      by (simp add: potential_def p0 assms(3))
    ultimately have "potential e L s0 \<le> (N + 1) * L" by simp
    with enough have "potential e L s0 \<le> due_ticks e ts s0" by simp
    from run_completes [OF inv0 _ this] s(1) show ?thesis by (auto simp: L_def)
  qed
  have after: "\<exists>s'. run (ts @ ts') s0 = Inr s' \<and> e \<notin> set (scheduled_events s') \<and>
                    fired e s' = fired e s"
    if gone: "e \<notin> set (scheduled_events s)"
    using run_gone [OF c gone, of ts'] s(1) by (simp add: run_append)
  from s(1) bound iff live after show ?thesis
    unfolding K_def L_def by blast
qed

lemma thrice_facts:
  "consistent thrice" "count_list (scheduled_events thrice) 1 = 1"
  "repeat (events thrice 1) = Finite (int 2)" "length (scheduled_events thrice) = 1"
  "fired 1 thrice = 0"
  by (simp_all add: thrice_def consistent_def fired_def sched_eval)

lemma thrice_due_ticks: "due_ticks 1 [1, 2, 3] thrice = 3"
  by (simp add: thrice_def is_due_def entries_def sched_eval)

theorem finite_repeat_fires_N_plus_1_times_witness:
  "consistent thrice \<and> count_list (scheduled_events thrice) 1 = 1 \<and>
   repeat (events thrice 1) = Finite (int 2) \<and>
   (2 + 1) * length (scheduled_events thrice) \<le> due_ticks 1 [1, 2, 3] thrice \<and>
   (\<exists>s. run [1, 2, 3] thrice = Inr s \<and> fired 1 s = 3 \<and> 1 \<notin> set (scheduled_events s) \<and>
        (\<exists>s'. run ([1, 2, 3] @ [4, 5]) thrice = Inr s' \<and> 1 \<notin> set (scheduled_events s') \<and>
              fired 1 s' = 3))"
proof -
  have enough: "(2 + 1) * length (scheduled_events thrice) \<le> due_ticks 1 [1, 2, 3] thrice"
    unfolding thrice_facts(4) thrice_due_ticks by simp
  from finite_repeat_fires_N_plus_1_times
    [OF thrice_facts(1,2,3), of "[1, 2, 3]" "[4, 5]"] enough
  obtain s where s: "run [1, 2, 3] thrice = Inr s" "1 \<notin> set (scheduled_events s)"
    "fired 1 s = fired 1 thrice + (2 + 1)"
    "\<exists>s'. run ([1, 2, 3] @ [4, 5]) thrice = Inr s' \<and> 1 \<notin> set (scheduled_events s') \<and>
          fired 1 s' = fired 1 s"
    by auto
  then show ?thesis using enough thrice_facts by auto
qed

section \<open>The units: facts\<close>

lemmas unit_eval = on_update_def update_blocked_map_nodes_def scan_next_nodes_for_collisions_def
  update_current_blocked_node_def update_reserved_node_def swap_blocked_nodes_def
  block_map_node_def unblock_map_node_def update_pathfinding_def follow_path_def
  countdown_waiting_def restart_path_def move_to_def request_path_def
  cancel_unit_path_requests_def upd_unit_def Let_def

lemma units_upd_unit [simp]:
  "units (upd_unit u f w) v = (if v = u then f (units w u) else units w v)"
  by (simp add: upd_unit_def)

lemma path_requests_upd_unit [simp]: "path_requests (upd_unit u f w) = path_requests w"
  by (simp add: upd_unit_def)

lemma node_unit_upd_unit [simp]: "node_unit (upd_unit u f w) = node_unit w"
  by (simp add: upd_unit_def)

lemma units_move_to [simp]: "units (move_to env u d w) = units w"
  by (simp add: move_to_def request_path_def cancel_unit_path_requests_def Let_def)

lemma node_unit_move_to [simp]: "node_unit (move_to env u d w) = node_unit w"
  by (simp add: move_to_def request_path_def cancel_unit_path_requests_def Let_def)

lemma path_requests_move_to:
  "path_requests (move_to env u d w) =
     filter (\<lambda>r. fst r \<noteq> u) (path_requests w) @
     [(u, position_to_map_grid env (position (units w u)), d)]"
  by (simp add: move_to_def request_path_def cancel_unit_path_requests_def Let_def)

lemma units_swap_blocked_nodes [simp]: "units (swap_blocked_nodes u a b w) = units w"
  by (simp add: swap_blocked_nodes_def block_map_node_def unblock_map_node_def
      split: option.splits)

text \<open>What the collision scan can do to the scanning unit itself.\<close>

lemma scan_own_unit:
  assumes "scan_next_nodes_for_collisions env now u w = Inr w1"
  shows "reserved_node (units w1 u) = reserved_node (units w u) \<and>
         (awaited_path (units w1 u) = awaited_path (units w u)
          \<or> path (units w1 u) = [] \<and> path_wait_counter (units w1 u) = now + 1)"
  using assms
  by (auto simp: scan_next_nodes_for_collisions_def find_best_way_to_avoid_collision_def
      wait_for_free_path_def find_alternative_path_def ask_for_pass_def
      find_free_tile_to_unblock_way_def Let_def
      split: list.splits option.splits if_splits prod.splits)

lemma update_blocked_map_nodes_own_unit:
  assumes "update_blocked_map_nodes env now u n w = Inr w1"
  shows "reserved_node (units w1 u) =
           (if length (path (units w1 u)) > 1
            then Some (position_to_node env (hd (path (units w1 u))))
            else reserved_node (units w u)) \<and>
         (awaited_path (units w1 u) = awaited_path (units w u)
          \<or> path (units w1 u) = [] \<and> path_wait_counter (units w1 u) = now + 1)"
proof -
  from assms obtain ws where ws: "scan_next_nodes_for_collisions env now u w = Inr ws"
    by (auto simp: update_blocked_map_nodes_def split: sum.splits)
  note own = scan_own_unit [OF ws]
  let ?w2 = "update_current_blocked_node u n ws"
  have w2: "reserved_node (units ?w2 u) = reserved_node (units ws u)"
      "path (units ?w2 u) = path (units ws u)"
      "awaited_path (units ?w2 u) = awaited_path (units ws u)"
      "path_wait_counter (units ?w2 u) = path_wait_counter (units ws u)"
    by (simp_all add: update_current_blocked_node_def)
  show ?thesis
  proof (cases "length (path (units ?w2 u)) > 1")
    case False
    with assms ws have "w1 = ?w2" by (simp add: update_blocked_map_nodes_def Let_def)
    with False w2 own show ?thesis by auto
  next
    case True
    with assms ws have "update_reserved_node env u ?w2 = Inr w1"
      by (simp add: update_blocked_map_nodes_def Let_def)
    then have "path (units w1 u) = path (units ?w2 u)"
        "awaited_path (units w1 u) = awaited_path (units ?w2 u)"
        "path_wait_counter (units w1 u) = path_wait_counter (units ?w2 u)"
        "reserved_node (units w1 u) = Some (position_to_node env (hd (path (units ?w2 u))))"
      by (auto simp: update_reserved_node_def Let_def split: list.splits)
    with True w2 own show ?thesis by auto
  qed
qed

lemma update_pathfinding_own_unit:
  assumes "update_pathfinding env now branch u w = Inr w'"
  shows "reserved_node (units w' u) = reserved_node (units w u) \<and>
         (awaited_path (units w u) = None \<longrightarrow>
            length (path (units w' u)) \<le> length (path (units w u))) \<and>
         (now < path_wait_counter (units w u) \<longrightarrow> awaited_path (units w u) \<noteq> None \<longrightarrow>
            path (units w' u) = path (units w u))"
  using assms
  by (auto simp: update_pathfinding_def countdown_waiting_def restart_path_def follow_path_def
      split: option.splits if_splits list.splits follow_branch.splits)

lemma walker_reaches_waypoint:
  "on_update tiles 0 (9 / 10, 0) Reach_waypoint 1 walker = Inr walker_arrived"
  by (simp add: walker_def walker_arrived_def tiles_def idle_unit_def unit_eval)

lemma walker_keeps_moving:
  "on_update tiles 0 (1 / 2, 0) Move_on 1 walker = Inr walker_reserving"
  by (simp add: walker_def walker_reserving_def tiles_def idle_unit_def unit_eval)

lemma walker_enters_node:
  "on_update tiles 1 (1, 0) Move_on 1 walker_arrived = Inr walker_moved_on"
  by (simp add: walker_def walker_arrived_def walker_moved_on_def tiles_def idle_unit_def
      unit_eval fun_eq_iff)

text \<open>
  C2, as stated: at the end of every tick the reserved node is set exactly when the
  path has more than one waypoint, and it is cleared when the path shrinks to one
  waypoint. Unit 1 starts with two waypoints; the tick in which it reaches the first
  one sets the reservation and then drops the waypoint, and the following tick leaves
  the reservation in place: after both ticks the unit holds a reserved node with a
  path of length 1.
\<close>

theorem reservation_outlives_queue:
  "on_update tiles 0 (9 / 10, 0) Reach_waypoint 1 walker = Inr walker_arrived \<and>
   \<not> reservation_matches_queue 1 walker_arrived \<and>
   on_update tiles 1 (1, 0) Move_on 1 walker_arrived = Inr walker_moved_on \<and>
   \<not> reservation_matches_queue 1 walker_moved_on"
  using walker_reaches_waypoint walker_enters_node
  by (simp add: reservation_matches_queue_def walker_arrived_def walker_moved_on_def)

text \<open>
  C2, amended. For every unit and every tick update that completes: the reserved node
  at the end of the tick is the node of the front waypoint if the path had more than
  one waypoint when the blocked nodes were updated (after the collision scan), and
  otherwise it is what it was before the tick. So a reservation, once set, stays set
  when the path shrinks or empties, and a unit that was not waiting at the start of
  the tick and ends it with more than one waypoint has a reserved node.
\<close>

theorem on_update_reserved_node:
  assumes "on_update env now new_position branch u w = Inr w'"
  shows "(\<exists>w1. update_blocked_map_nodes env now u (position_to_node env new_position)
                 (upd_unit u (\<lambda>x. x\<lparr>position := new_position\<rparr>) w) = Inr w1 \<and>
               reserved_node (units w' u) =
                 (if length (path (units w1 u)) > 1
                  then Some (position_to_node env (hd (path (units w1 u))))
                  else reserved_node (units w u))) \<and>
         (reserved_node (units w u) \<noteq> None \<longrightarrow> reserved_node (units w' u) \<noteq> None) \<and>
         (awaited_path (units w u) = None \<longrightarrow> length (path (units w' u)) > 1 \<longrightarrow>
            reserved_node (units w' u) \<noteq> None)"
proof -
  let ?w0 = "upd_unit u (\<lambda>x. x\<lparr>position := new_position\<rparr>) w"
  from assms obtain w1 where
    w1: "update_blocked_map_nodes env now u (position_to_node env new_position) ?w0 = Inr w1"
    and w': "update_pathfinding env now branch u w1 = Inr w'"
    by (auto simp: on_update_def Let_def split: sum.splits)
  note b = update_blocked_map_nodes_own_unit [OF w1]
  note f = update_pathfinding_own_unit [OF w']
  have r: "reserved_node (units w' u) =
             (if length (path (units w1 u)) > 1
              then Some (position_to_node env (hd (path (units w1 u))))
              else reserved_node (units w u))"
    using b f by simp
  have keep: "reserved_node (units w u) \<noteq> None \<longrightarrow> reserved_node (units w' u) \<noteq> None"
    using r by simp
  have fol: "awaited_path (units w u) = None \<longrightarrow> length (path (units w' u)) > 1 \<longrightarrow>
            reserved_node (units w' u) \<noteq> None"
  proof (intro impI)
    assume a: "awaited_path (units w u) = None" and l: "length (path (units w' u)) > 1"
    from b have "awaited_path (units w1 u) = None
       \<or> path (units w1 u) = [] \<and> path_wait_counter (units w1 u) = now + 1"
      using a by auto
    then have "length (path (units w' u)) \<le> length (path (units w1 u))"
    proof
      assume "awaited_path (units w1 u) = None"
      with f show ?thesis by simp
    next
      assume c: "path (units w1 u) = [] \<and> path_wait_counter (units w1 u) = now + 1"
      show ?thesis
      proof (cases "awaited_path (units w1 u) = None")
        case True
        with f show ?thesis by simp
      next
        case False
        with f c have "path (units w' u) = path (units w1 u)" by simp
        then show ?thesis by simp
      qed
    qed
    with l have "length (path (units w1 u)) > 1" by simp
    with r show "reserved_node (units w' u) \<noteq> None" by simp
  qed
  from w1 r keep fol show ?thesis by blast
qed

theorem on_update_reserved_node_witness:
  "on_update tiles 0 (1 / 2, 0) Move_on 1 walker = Inr walker_reserving \<and>
   awaited_path (units walker 1) = None \<and>
   length (path (units walker_reserving 1)) > 1 \<and>
   reserved_node (units walker_reserving 1) \<noteq> None \<and>
   on_update tiles 1 (1, 0) Move_on 1 walker_arrived = Inr walker_moved_on \<and>
   reserved_node (units walker_arrived 1) \<noteq> None \<and>
   reserved_node (units walker_moved_on 1) \<noteq> None"
proof -
  have a: "awaited_path (units walker 1) = None"
    by (simp add: walker_def idle_unit_def)
  have l: "length (path (units walker_reserving 1)) > 1"
    by (simp add: walker_reserving_def)
  have r: "reserved_node (units walker_arrived 1) \<noteq> None"
    by (simp add: walker_arrived_def)
  from on_update_reserved_node [OF walker_keeps_moving] a l
  have "reserved_node (units walker_reserving 1) \<noteq> None" by blast
  moreover from on_update_reserved_node [OF walker_enters_node] r
  have "reserved_node (units walker_moved_on 1) \<noteq> None" by blast
  ultimately show ?thesis
    using walker_keeps_moving walker_enters_node a l r by blast
qed

text \<open>
  C3, as stated: a waiting unit whose deadline has passed gets its shelved path back,
  without a new path request, when the blocked node is walkable or the shelved path
  has fewer than 20 waypoints. Unit 1 waits with a shelved path of two waypoints whose
  first node is free; when the deadline has passed its path stays empty and a new
  request for the last waypoint is filed with the pathfinder.
\<close>

theorem short_shelved_path_is_requested_anew:
  "walkable tiles (node_unit waiter) (position_to_node tiles (1, 0)) \<and>
   awaited_path (units waiter 1) = Some [(1, 0), (2, 0)] \<and>
   path_wait_counter (units waiter 1) \<le> 6 \<and>
   update_pathfinding tiles 6 Move_on 1 waiter = Inr waiter_rerouted \<and>
   path (units waiter_rerouted 1) = [] \<and>
   path_requests waiter = [] \<and>
   path_requests waiter_rerouted = [(1, (0, 0), (2, 0))]"
  by (simp add: waiter_def waiter_rerouted_def tiles_def idle_unit_def unit_eval)

text \<open>
  C3, amended. For every waiting unit whose deadline has passed and whose shelved path
  is not empty, the tick completes, and: if the node of the first shelved waypoint is
  walkable and the shelved path has more than 20 waypoints, the shelved path becomes
  the path again and the waiting ends, with no path request; if the shelved path has
  fewer than 20 waypoints, or exactly 20 and that node is walkable, the waiting ends
  and a new request, from the unit's position to the last shelved waypoint, replaces
  the unit's pending requests, while the path is left as it is; if that node is not
  walkable and the shelved path has at least 20 waypoints, the deadline is moved on by
  exactly one second. In each case nothing else in the world changes.
\<close>

theorem waiting_deadline_elapsed:
  assumes "awaited_path (units w u) = Some p" and "p \<noteq> []"
    and "path_wait_counter (units w u) \<le> now"
  shows "\<exists>w'. update_pathfinding env now branch u w = Inr w' \<and>
           (walkable env (node_unit w) (position_to_node env (hd p)) \<and> length p > 20 \<longrightarrow>
              w' = w\<lparr>units := (units w)
                         (u := (units w u)\<lparr>path := p, awaited_path := None\<rparr>)\<rparr>) \<and>
           (length p < 20 \<or>
            walkable env (node_unit w) (position_to_node env (hd p)) \<and> length p = 20 \<longrightarrow>
              w' = w\<lparr>units := (units w)(u := (units w u)\<lparr>awaited_path := None\<rparr>),
                      path_requests :=
                        filter (\<lambda>r. fst r \<noteq> u) (path_requests w) @
                        [(u, position_to_map_grid env (position (units w u)),
                             position_to_map_grid env (last p))]\<rparr>) \<and>
           (\<not> walkable env (node_unit w) (position_to_node env (hd p)) \<and> length p \<ge> 20 \<longrightarrow>
              w' = w\<lparr>units := (units w)
                         (u := (units w u)
                            \<lparr>path_wait_counter := path_wait_counter (units w u) + 1\<rparr>)\<rparr>)"
proof -
  from assms(2) obtain p0 ps where p: "p = p0 # ps" by (cases p) auto
  show ?thesis
    using assms(1,3)
    by (auto simp: p update_pathfinding_def countdown_waiting_def restart_path_def
        move_to_def request_path_def cancel_unit_path_requests_def upd_unit_def Let_def)
qed

lemma long_path_facts: "long_path \<noteq> []" "hd long_path = (1, 0)" "length long_path = 21"
  by (simp_all add: long_path_def)

lemma twenty_path_facts:
  "twenty_path \<noteq> []" "hd twenty_path = (1, 0)" "length twenty_path = 20"
  "last twenty_path = (20, 0)"
  by (simp_all add: twenty_path_def last_map)

theorem waiting_deadline_elapsed_witness:
  "(\<exists>w'. update_pathfinding tiles 6 Move_on 1 long_waiter = Inr w' \<and>
         path (units w' 1) = long_path \<and> awaited_path (units w' 1) = None \<and>
         path_requests w' = []) \<and>
   (\<exists>w'. update_pathfinding tiles 6 Move_on 1 waiter = Inr w' \<and>
         path (units w' 1) = [] \<and> awaited_path (units w' 1) = None \<and>
         path_requests w' = [(1, (0, 0), (2, 0))]) \<and>
   (\<exists>w'. update_pathfinding tiles 6 Move_on 1 twenty_waiter = Inr w' \<and>
         path (units w' 1) = [] \<and> awaited_path (units w' 1) = None \<and>
         path_requests w' = [(1, (0, 0), (20, 0))]) \<and>
   (\<exists>w'. update_pathfinding tiles 6 Move_on 1 blocked_waiter = Inr w' \<and>
         awaited_path (units w' 1) = Some long_path \<and>
         path_wait_counter (units w' 1) = 6)"
proof -
  have 1: "awaited_path (units long_waiter 1) = Some long_path"
      "path_wait_counter (units long_waiter 1) \<le> 6"
      "walkable tiles (node_unit long_waiter) (position_to_node tiles (hd long_path))"
      "path_requests long_waiter = []"
    by (simp_all add: long_waiter_def idle_unit_def tiles_def long_path_facts)
  have 2: "awaited_path (units waiter 1) = Some [(1, 0), (2, 0)]"
      "path_wait_counter (units waiter 1) \<le> 6"
      "path_requests waiter = []" "path (units waiter 1) = []"
      "position_to_map_grid tiles (position (units waiter 1)) = (0, 0)"
      "position_to_map_grid tiles (last [(1, 0), (2, 0)]) = (2, 0)"
    by (simp_all add: waiter_def idle_unit_def tiles_def)
  have 3: "awaited_path (units blocked_waiter 1) = Some long_path"
      "path_wait_counter (units blocked_waiter 1) \<le> 6"
      "path_wait_counter (units blocked_waiter 1) + 1 = 6"
      "\<not> walkable tiles (node_unit blocked_waiter) (position_to_node tiles (hd long_path))"
    by (simp_all add: blocked_waiter_def long_waiter_def idle_unit_def tiles_def long_path_facts)
  have 4: "awaited_path (units twenty_waiter 1) = Some twenty_path"
      "path_wait_counter (units twenty_waiter 1) \<le> 6"
      "walkable tiles (node_unit twenty_waiter) (position_to_node tiles (hd twenty_path))"
      "path_requests twenty_waiter = []" "path (units twenty_waiter 1) = []"
      "position_to_map_grid tiles (position (units twenty_waiter 1)) = (0, 0)"
      "position_to_map_grid tiles (last twenty_path) = (20, 0)"
    by (simp_all add: twenty_waiter_def long_waiter_def idle_unit_def tiles_def
        twenty_path_facts)
  from waiting_deadline_elapsed [OF 1(1) long_path_facts(1) 1(2), of tiles Move_on] 1(3,4)
  have a: "\<exists>w'. update_pathfinding tiles 6 Move_on 1 long_waiter = Inr w' \<and>
         path (units w' 1) = long_path \<and> awaited_path (units w' 1) = None \<and>
         path_requests w' = []"
    by (auto simp: long_path_facts)
  from waiting_deadline_elapsed [OF 2(1) _ 2(2), of tiles Move_on] 2(3-6)
  have b: "\<exists>w'. update_pathfinding tiles 6 Move_on 1 waiter = Inr w' \<and>
         path (units w' 1) = [] \<and> awaited_path (units w' 1) = None \<and>
         path_requests w' = [(1, (0, 0), (2, 0))]"
    by auto
  from waiting_deadline_elapsed [OF 4(1) twenty_path_facts(1) 4(2), of tiles Move_on] 4(3-7)
  have c: "\<exists>w'. update_pathfinding tiles 6 Move_on 1 twenty_waiter = Inr w' \<and>
         path (units w' 1) = [] \<and> awaited_path (units w' 1) = None \<and>
         path_requests w' = [(1, (0, 0), (20, 0))]"
    by (auto simp: twenty_path_facts)
  from waiting_deadline_elapsed [OF 3(1) long_path_facts(1) 3(2), of tiles Move_on] 3(1,3,4)
  have d: "\<exists>w'. update_pathfinding tiles 6 Move_on 1 blocked_waiter = Inr w' \<and>
         awaited_path (units w' 1) = Some long_path \<and>
         path_wait_counter (units w' 1) = 6"
    by (auto simp: long_path_facts)
  from a b c d show ?thesis by blast
qed

text \<open>
  C4, as stated: an attempt to occupy a node held by another unit is detected and
  aborted, and the record of the unit that held it stays. Node (1, 0) is held by
  unit 2; when unit 1 blocks it, or moves onto it, the node's occupant becomes unit 1.
\<close>

theorem block_map_node_overwrites_occupant:
  "node_unit contested (1, 0) = Some 2 \<and>
   node_unit (block_map_node 1 (1, 0) contested) (1, 0) = Some 1 \<and>
   node_unit (update_current_blocked_node 1 (1, 0) contested) (1, 0) = Some 1"
  by (simp add: contested_def block_map_node_def update_current_blocked_node_def
      swap_blocked_nodes_def unblock_map_node_def idle_unit_def tiles_def)

text \<open>
  C4, amended. For every node and every unit, whoever holds the node: blocking the
  node, swapping the blocked nodes, and moving the unit's current node onto it make
  the unit the node's occupant. Nothing is detected or signalled, and no move is
  aborted: the unit's current node becomes that node.
\<close>

theorem occupying_is_unconditional:
  "node_unit (block_map_node u n w) n = Some u \<and>
   node_unit (swap_blocked_nodes u unblocked n w) n = Some u \<and>
   node_unit (update_current_blocked_node u n w) n = Some u \<and>
   current_node (units (update_current_blocked_node u n w) u) = n"
  by (simp add: block_map_node_def update_current_blocked_node_def swap_blocked_nodes_def)

end
